theory Spec2Isabelle
  imports Complex_Main "HOL-Library.AList" "HOL-Library.Product_Lexorder"
begin

section \<open>The graph store (graph.py)\<close>

text \<open>
  Node ids and travel times are Python integers (the repository's data set uses integer
  minutes). Latitude and longitude are Python floats, that is IEEE doubles: a number the
  caller writes is read as the nearest double, and every operation on floats returns the
  double nearest to the exact result. The two dictionaries of
  \<^verbatim>\<open>SimpleGraph\<close> are association lists with distinct keys in insertion order:
  \<open>AList.update\<close> is the dictionary assignment \<^verbatim>\<open>d[k] = v\<close> (an existing key keeps
  its place) and \<open>AList.map_entry\<close> is the in-place \<^verbatim>\<open>d[k].append(x)\<close> on a key that
  is present. The grid is the list of lists of buckets that \<^verbatim>\<open>__init__\<close> builds.
\<close>

record simple_graph =
  adjacency :: "(int \<times> (int \<times> int) list) list"
  positions :: "(int \<times> real \<times> real) list"
  grid :: "int list list list"

definition init_graph :: simple_graph where
  "init_graph = \<lparr>adjacency = [], positions = [], grid = replicate 10 (replicate 10 [])\<rparr>"

text \<open>
  Rounding to the nearest double, ties to even. \<open>binade\<close> finds the exponent \<open>e\<close> with
  \<open>2 ^ e \<le> x < 2 ^ (e + 1)\<close> by halving or doubling (the fuel covers the whole exponent
  range of doubles), a double of that binade is a multiple of \<open>2 ^ (e - 52)\<close>, and below
  \<open>2 ^ (-1022)\<close> the spacing stays \<open>2 ^ (-1074)\<close>. Overflow to infinity (magnitudes from
  \<open>2 ^ 1024\<close>) is left out: no latitude or longitude comes near it.
\<close>

definition rne :: "real \<Rightarrow> int" where
  "rne x =
     (let f = \<lfloor>x\<rfloor>; r = x - of_int f
      in if r < 1 / 2 then f else if 1 / 2 < r then f + 1 else if even f then f else f + 1)"

fun binade :: "nat \<Rightarrow> real \<Rightarrow> int \<Rightarrow> int" where
  "binade k x e =
     (if k = 0 then e
      else if 2 \<le> x then binade (k - 1) (x / 2) (e + 1)
      else if x < 1 then binade (k - 1) (x * 2) (e - 1)
      else e)"

declare binade.simps [simp del]

definition pow2 :: "int \<Rightarrow> real" where
  "pow2 e = (if 0 \<le> e then 2 ^ nat e else 1 / 2 ^ nat (- e))"

definition fl :: "real \<Rightarrow> real" where
  "fl x =
     (if x = 0 then 0
      else let e = max (binade 2100 \<bar>x\<bar> 0) (- 1022); u = pow2 (e - 52)
           in of_int (rne (x / u)) * u)"

text \<open>
  The two float expressions of \<^verbatim>\<open>add_node\<close>, \<^verbatim>\<open>(lat - 0.3) * 20\<close> and
  \<^verbatim>\<open>(lon - 32.5) * 20\<close>: \<open>0.3\<close> is read as a double, \<open>32.5\<close> and \<open>20\<close> are doubles.
\<close>

definition lat_cell :: "real \<Rightarrow> real" where
  "lat_cell lat = fl (fl (fl lat - fl 0.3) * 20)"

definition lon_cell :: "real \<Rightarrow> real" where
  "lon_cell lon = fl (fl (fl lon - 32.5) * 20)"

text \<open>Python's \<^verbatim>\<open>int(x)\<close> on a float drops the fractional part: it rounds toward zero.\<close>

definition py_int :: "real \<Rightarrow> int" where
  "py_int x = (if 0 \<le> x then \<lfloor>x\<rfloor> else \<lceil>x\<rceil>)"

definition add_node :: "simple_graph \<Rightarrow> int \<Rightarrow> real \<Rightarrow> real \<Rightarrow> simple_graph" where
  "add_node g node_id lat lon =
     (let g1 = g\<lparr>adjacency := AList.update node_id [] (adjacency g),
                 positions := AList.update node_id (fl lat, fl lon) (positions g)\<rparr>;
          grid_x = py_int (lat_cell lat);
          grid_y = py_int (lon_cell lon)
      in if 0 \<le> grid_x \<and> grid_x < 10 \<and> 0 \<le> grid_y \<and> grid_y < 10
         then g1\<lparr>grid := (grid g1)[nat grid_x :=
                 (grid g1 ! nat grid_x)[nat grid_y := grid g1 ! nat grid_x ! nat grid_y @ [node_id]]]\<rparr>
         else g1)"

definition add_edge :: "simple_graph \<Rightarrow> int \<Rightarrow> int \<Rightarrow> int \<Rightarrow> simple_graph" where
  "add_edge g from_node to_node travel_time =
     (let a1 = (if map_of (adjacency g) from_node = None
                then AList.update from_node [] (adjacency g) else adjacency g);
          a2 = (if map_of a1 to_node = None then AList.update to_node [] a1 else a1);
          a3 = AList.map_entry from_node (\<lambda>es. es @ [(to_node, travel_time)]) a2;
          a4 = AList.map_entry to_node (\<lambda>es. es @ [(from_node, travel_time)]) a3
      in g\<lparr>adjacency := a4\<rparr>)"

definition get_neighbors :: "simple_graph \<Rightarrow> int \<Rightarrow> (int \<times> int) list" where
  "get_neighbors g node_id = (case map_of (adjacency g) node_id of None \<Rightarrow> [] | Some es \<Rightarrow> es)"

text \<open>A construction history: the calls a caller makes on a fresh graph.\<close>

datatype graph_op = AddNode int real real | AddEdge int int int

fun apply_op :: "simple_graph \<Rightarrow> graph_op \<Rightarrow> simple_graph" where
  "apply_op g (AddNode node_id lat lon) = add_node g node_id lat lon"
| "apply_op g (AddEdge from_node to_node travel_time) = add_edge g from_node to_node travel_time"

definition build :: "graph_op list \<Rightarrow> simple_graph" where
  "build ops = foldl apply_op init_graph ops"

fun op_ids :: "graph_op \<Rightarrow> int list" where
  "op_ids (AddNode node_id lat lon) = [node_id]"
| "op_ids (AddEdge from_node to_node travel_time) = [from_node, to_node]"

text \<open>
  A history in which every \<^verbatim>\<open>add_node\<close> is applied while the node has no edge to
  another node (in particular: all nodes before all edges).
\<close>

fun insertions_safe :: "simple_graph \<Rightarrow> graph_op list \<Rightarrow> bool" where
  "insertions_safe g [] = True"
| "insertions_safe g (AddNode node_id lat lon # ops) =
     (list_all (\<lambda>e. fst e = node_id) (get_neighbors g node_id) \<and>
      insertions_safe (add_node g node_id lat lon) ops)"
| "insertions_safe g (AddEdge a b w # ops) = insertions_safe (add_edge g a b w) ops"

text \<open>The invariant of the data model: every adjacency entry has its mirror image.\<close>

definition symmetric :: "simple_graph \<Rightarrow> bool" where
  "symmetric g = (\<forall>a b w. (b, w) \<in> set (get_neighbors g a) \<longrightarrow> (a, w) \<in> set (get_neighbors g b))"

definition nonneg_weights :: "simple_graph \<Rightarrow> bool" where
  "nonneg_weights g = list_all (\<lambda>entry. list_all (\<lambda>e. 0 \<le> snd e) (snd entry)) (adjacency g)"

definition pos_weights :: "simple_graph \<Rightarrow> bool" where
  "pos_weights g = list_all (\<lambda>entry. list_all (\<lambda>e. 0 < snd e) (snd entry)) (adjacency g)"

inductive reachable :: "simple_graph \<Rightarrow> int \<Rightarrow> int \<Rightarrow> bool" for g :: simple_graph and a :: int where
  reach_self: "reachable g a a"
| reach_step: "reachable g a b \<Longrightarrow> (c, w) \<in> set (get_neighbors g b) \<Longrightarrow> reachable g a c"

text \<open>
  \<open>path_cost g p c\<close>: \<open>p\<close> is a non-empty walk of the graph and \<open>c\<close> is the sum of the
  weights of one edge for each consecutive pair of \<open>p\<close>.
\<close>

fun path_cost :: "simple_graph \<Rightarrow> int list \<Rightarrow> int \<Rightarrow> bool" where
  "path_cost g [] c = False"
| "path_cost g [a] c = (c = 0)"
| "path_cost g (a # b # p) c =
     list_ex (\<lambda>e. fst e = b \<and> path_cost g (b # p) (c - snd e)) (get_neighbors g a)"

section \<open>Shortest paths (shortest\_path.py)\<close>

text \<open>A cost is a Python integer or \<^verbatim>\<open>float('inf')\<close>.\<close>

datatype cost = Fin int | Inf

fun cost_less :: "cost \<Rightarrow> cost \<Rightarrow> bool" where
  "cost_less (Fin a) (Fin b) = (a < b)"
| "cost_less (Fin a) Inf = True"
| "cost_less Inf c = False"

fun cost_add :: "cost \<Rightarrow> cost \<Rightarrow> cost" where
  "cost_add (Fin a) (Fin b) = Fin (a + b)"
| "cost_add a b = Inf"

text \<open>\<^verbatim>\<open>d.get(k, float('inf'))\<close>\<close>

definition get_or_inf :: "(int \<rightharpoonup> int) \<Rightarrow> int \<Rightarrow> cost" where
  "get_or_inf d k = (case d k of None \<Rightarrow> Inf | Some v \<Rightarrow> Fin v)"

text \<open>
  \<^verbatim>\<open>heapq\<close> keeps a binary heap in a list. Its entries here are tuples of integers,
  which Python compares lexicographically: a total order in which equal entries are
  indistinguishable. What \<^verbatim>\<open>heappop\<close> returns, and the contents it leaves, are then
  fixed by the contents alone, so the queue is the list of its entries:
  \<^verbatim>\<open>heappop\<close> takes a least entry out, \<^verbatim>\<open>heappush\<close> adds one.
\<close>

definition heappop :: "'a::linorder list \<Rightarrow> 'a \<times> 'a list" where
  "heappop h = (min_list h, remove1 (min_list h) h)"

definition heappush :: "'a list \<Rightarrow> 'a \<Rightarrow> 'a list" where
  "heappush h x = x # h"

record dijkstra_state =
  pq :: "(int \<times> int) list"
  distances :: "int \<rightharpoonup> int"
  previous :: "int \<rightharpoonup> int"

text \<open>The body of the loop over the neighbours of \<open>current\<close>.\<close>

definition dijkstra_relax :: "int \<Rightarrow> int \<Rightarrow> dijkstra_state \<Rightarrow> int \<times> int \<Rightarrow> dijkstra_state" where
  "dijkstra_relax current current_dist s e =
     (let neighbor = fst e; travel_time = snd e; new_dist = current_dist + travel_time
      in if cost_less (Fin new_dist) (get_or_inf (distances s) neighbor)
         then s\<lparr>distances := (distances s)(neighbor \<mapsto> new_dist),
                previous := (previous s)(neighbor \<mapsto> current),
                pq := heappush (pq s) (new_dist, neighbor)\<rparr>
         else s)"

text \<open>
  The main loop \<^verbatim>\<open>while pq\<close>. It may run forever (on a negative weight), so it is a
  partial function: \<open>None\<close> is the loop that never ends.
\<close>

partial_function (option) dijkstra_loop ::
    "simple_graph \<Rightarrow> int \<Rightarrow> dijkstra_state \<Rightarrow> dijkstra_state option" where
  "dijkstra_loop g end_node s =
     (if pq s = [] then Some s
      else
        let current_dist = fst (fst (heappop (pq s)));
            current = snd (fst (heappop (pq s)));
            s1 = s\<lparr>pq := snd (heappop (pq s))\<rparr>
        in if current = end_node then Some s1
           else if cost_less (get_or_inf (distances s1) current) (Fin current_dist)
           then dijkstra_loop g end_node s1
           else dijkstra_loop g end_node
                  (foldl (dijkstra_relax current current_dist) s1 (get_neighbors g current)))"

declare dijkstra_loop.simps [code]

text \<open>
  The walk \<^verbatim>\<open>while current in previous\<close> that collects the path backwards. It runs
  forever on a cyclic predecessor map.
\<close>

partial_function (option) walk_back :: "(int \<rightharpoonup> int) \<Rightarrow> int \<Rightarrow> int list \<Rightarrow> int list option" where
  "walk_back prev current path =
     (case prev current of
        None \<Rightarrow> Some path
      | Some p \<Rightarrow> walk_back prev p (path @ [current]))"

declare walk_back.simps [code]

definition dijkstra :: "simple_graph \<Rightarrow> int \<Rightarrow> int \<Rightarrow> (int list \<times> cost) option" where
  "dijkstra g start end_node =
     (case dijkstra_loop g end_node
             \<lparr>pq = [(0, start)], distances = [start \<mapsto> 0], previous = Map.empty\<rparr> of
        None \<Rightarrow> None
      | Some s \<Rightarrow>
          (case walk_back (previous s) end_node [] of
             None \<Rightarrow> None
           | Some path \<Rightarrow> Some (rev (path @ [start]), get_or_inf (distances s) end_node)))"

record a_star_state =
  a_pq :: "(int \<times> int \<times> int) list"
  g_score :: "int \<rightharpoonup> int"
  f_score :: "int \<rightharpoonup> int"
  a_previous :: "int \<rightharpoonup> int"

text \<open>
  The entry pushed is \<^verbatim>\<open>(f_score[neighbor], tentative_g, neighbor)\<close>, read right after
  \<^verbatim>\<open>f_score[neighbor] = tentative_g\<close>: the heuristic is zero.
\<close>

definition a_star_relax :: "int \<Rightarrow> int \<Rightarrow> a_star_state \<Rightarrow> int \<times> int \<Rightarrow> a_star_state" where
  "a_star_relax current current_g s e =
     (let neighbor = fst e; travel_time = snd e; tentative_g = current_g + travel_time
      in if cost_less (Fin tentative_g) (get_or_inf (g_score s) neighbor)
         then s\<lparr>a_previous := (a_previous s)(neighbor \<mapsto> current),
                g_score := (g_score s)(neighbor \<mapsto> tentative_g),
                f_score := (f_score s)(neighbor \<mapsto> tentative_g),
                a_pq := heappush (a_pq s) (tentative_g, tentative_g, neighbor)\<rparr>
         else s)"

partial_function (option) a_star_loop ::
    "simple_graph \<Rightarrow> int \<Rightarrow> a_star_state \<Rightarrow> a_star_state option" where
  "a_star_loop g end_node s =
     (if a_pq s = [] then Some s
      else
        let current_g = fst (snd (fst (heappop (a_pq s))));
            current = snd (snd (fst (heappop (a_pq s))));
            s1 = s\<lparr>a_pq := snd (heappop (a_pq s))\<rparr>
        in if current = end_node then Some s1
           else if cost_less (get_or_inf (g_score s1) current) (Fin current_g)
           then a_star_loop g end_node s1
           else a_star_loop g end_node
                  (foldl (a_star_relax current current_g) s1 (get_neighbors g current)))"

declare a_star_loop.simps [code]

definition a_star :: "simple_graph \<Rightarrow> int \<Rightarrow> int \<Rightarrow> (int list \<times> cost) option" where
  "a_star g start end_node =
     (case a_star_loop g end_node
             \<lparr>a_pq = [(0, 0, start)], g_score = [start \<mapsto> 0], f_score = [start \<mapsto> 0],
              a_previous = Map.empty\<rparr> of
        None \<Rightarrow> None
      | Some s \<Rightarrow>
          (case walk_back (a_previous s) end_node [] of
             None \<Rightarrow> None
           | Some path \<Rightarrow> Some (rev (path @ [start]), get_or_inf (g_score s) end_node)))"

section \<open>The multi-stop heuristic (heuristics.py)\<close>

text \<open>
  The set \<^verbatim>\<open>unvisited\<close> is the list of its elements in the order in which Python
  iterates over it; \<^verbatim>\<open>set(stops[1:])\<close> is \<open>set_iter (drop 1 stops)\<close> for an
  enumeration \<open>set_iter\<close> that the model leaves open. Removing an element keeps the
  order of the others. The scan \<^verbatim>\<open>for stop in unvisited\<close> carries
  \<^verbatim>\<open>(nearest, min_time)\<close>; it does not return when a call of \<^verbatim>\<open>a_star\<close> does not.
\<close>

fun nearest_scan ::
    "simple_graph \<Rightarrow> int \<Rightarrow> int list \<Rightarrow> int option \<times> cost \<Rightarrow> (int option \<times> cost) option" where
  "nearest_scan g current [] acc = Some acc"
| "nearest_scan g current (stop # rest) acc =
     (case a_star g current stop of
        None \<Rightarrow> None
      | Some r \<Rightarrow>
          nearest_scan g current rest
            (if cost_less (snd r) (snd acc) then (Some stop, snd r) else acc))"

text \<open>
  \<^verbatim>\<open>if nearest:\<close> tests the truth value of \<^verbatim>\<open>nearest\<close>: \<^verbatim>\<open>None\<close> is false, and so
  is the integer 0.
\<close>

partial_function (option) greedy_loop ::
    "simple_graph \<Rightarrow> int list \<Rightarrow> int \<Rightarrow> int list \<Rightarrow> cost \<Rightarrow> (int list \<times> cost) option" where
  "greedy_loop g unvisited current route total_time =
     (if unvisited = [] then Some (route, total_time)
      else
        (case nearest_scan g current unvisited (None, Inf) of
           None \<Rightarrow> None
         | Some found \<Rightarrow>
             (case fst found of
                None \<Rightarrow> greedy_loop g unvisited current route total_time
              | Some nearest \<Rightarrow>
                  if nearest \<noteq> 0
                  then greedy_loop g (remove1 nearest unvisited) nearest (route @ [nearest])
                         (cost_add total_time (snd found))
                  else greedy_loop g unvisited current route total_time)))"

declare greedy_loop.simps [code]

definition greedy_tsp ::
    "(int list \<Rightarrow> int list) \<Rightarrow> simple_graph \<Rightarrow> int list \<Rightarrow> (int list \<times> cost) option" where
  "greedy_tsp set_iter g stops =
     (if length stops < 2 then Some (stops, Fin 0)
      else greedy_loop g (set_iter (drop 1 stops)) (stops ! 0) [stops ! 0] (Fin 0))"

section \<open>The batch dispatcher (parallel.py)\<close>

text \<open>
  \<^verbatim>\<open>simple_parallel\<close> submits one task per request and keeps the futures in submission
  order. The workers finish the tasks in an order \<open>sched\<close> the caller does not control;
  finishing task \<open>i\<close> stores its result in future \<open>i\<close>. A task reads the graph and
  writes only its own local state, so its result is that of the call alone.
  \<^verbatim>\<open>f.result()\<close> waits for future \<open>f\<close>: on a future that is never completed the
  gathering does not return.
\<close>

definition process_request :: "simple_graph \<Rightarrow> int \<times> int \<Rightarrow> (int list \<times> cost) option" where
  "process_request g req = a_star g (fst req) (snd req)"

fun run_workers ::
    "simple_graph \<Rightarrow> (int \<times> int) list \<Rightarrow> nat list \<Rightarrow> (int list \<times> cost) option list
       \<Rightarrow> (int list \<times> cost) option list option" where
  "run_workers g requests [] futures = Some futures"
| "run_workers g requests (i # sched) futures =
     (if i < length requests
      then (case process_request g (requests ! i) of
              None \<Rightarrow> None
            | Some r \<Rightarrow> run_workers g requests sched (futures[i := Some r]))
      else run_workers g requests sched futures)"

definition simple_parallel ::
    "nat list \<Rightarrow> simple_graph \<Rightarrow> (int \<times> int) list \<Rightarrow> (int list \<times> cost) list option" where
  "simple_parallel sched g requests =
     (case run_workers g requests sched (replicate (length requests) None) of
        None \<Rightarrow> None
      | Some futures \<Rightarrow> those futures)"

section \<open>Invariants of the search\<close>

text \<open>
  The invariant of the main loop of \<^verbatim>\<open>dijkstra\<close>, for a lower bound \<open>m\<close> on the keys in
  the queue (the key popped last). A node is settled when it has a distance and no queue
  entry with that distance.
\<close>

definition start_ok :: "int \<Rightarrow> int \<Rightarrow> dijkstra_state \<Rightarrow> bool" where
  "start_ok start m s = (distances s start = Some 0 \<and> previous s start = None \<and> 0 \<le> m)"

definition queue_ok :: "int \<Rightarrow> dijkstra_state \<Rightarrow> bool" where
  "queue_ok m s =
     (distinct (pq s) \<and>
      (\<forall>d n. (d, n) \<in> set (pq s) \<longrightarrow> m \<le> d \<and> (\<exists>d'. distances s n = Some d' \<and> d' \<le> d)))"

definition prev_ok :: "simple_graph \<Rightarrow> dijkstra_state \<Rightarrow> bool" where
  "prev_ok g s =
     (\<forall>n c. previous s n = Some c \<longrightarrow>
        (\<exists>dc w. distances s c = Some dc \<and> (dc, c) \<notin> set (pq s) \<and>
                (n, w) \<in> set (get_neighbors g c) \<and> distances s n = Some (dc + w)))"

definition dist_ok :: "simple_graph \<Rightarrow> int \<Rightarrow> int \<Rightarrow> dijkstra_state \<Rightarrow> bool" where
  "dist_ok g start m s =
     (\<forall>n d. distances s n = Some d \<longrightarrow>
        (n = start \<or> previous s n \<noteq> None) \<and> ((d, n) \<in> set (pq s) \<or> d \<le> m) \<and>
        reachable g start n)"

definition rank_ok :: "dijkstra_state \<Rightarrow> bool" where
  "rank_ok s = (\<exists>r :: int \<Rightarrow> nat. \<forall>n c. previous s n = Some c \<longrightarrow> r c < r n)"

definition search_inv :: "simple_graph \<Rightarrow> int \<Rightarrow> int \<Rightarrow> dijkstra_state \<Rightarrow> bool" where
  "search_inv g start m s =
     (start_ok start m s \<and> queue_ok m s \<and> prev_ok g s \<and> dist_ok g start m s \<and> rank_ok s)"

definition settled :: "dijkstra_state \<Rightarrow> int set" where
  "settled s = {n. \<exists>d. distances s n = Some d \<and> (d, n) \<notin> set (pq s)}"

definition closed_except :: "simple_graph \<Rightarrow> int set \<Rightarrow> dijkstra_state \<Rightarrow> bool" where
  "closed_except g X s =
     (\<forall>n \<in> settled s - X. \<forall>e \<in> set (get_neighbors g n). fst e \<in> dom (distances s))"

text \<open>Every node that some adjacency list names.\<close>

definition graph_nodes :: "simple_graph \<Rightarrow> int list" where
  "graph_nodes g = concat (map (\<lambda>entry. map fst (snd entry)) (adjacency g))"

text \<open>
  A queue entry \<open>(dist, node)\<close> of \<^verbatim>\<open>dijkstra\<close> corresponds to the entry
  \<open>(dist, dist, node)\<close> of \<^verbatim>\<open>a_star\<close>, and a state of one loop to a state of the other.
\<close>

definition lift_entry :: "int \<times> int \<Rightarrow> int \<times> int \<times> int" where
  "lift_entry e = (fst e, fst e, snd e)"

definition sim :: "a_star_state \<Rightarrow> dijkstra_state \<Rightarrow> bool" where
  "sim t s = (a_pq t = map lift_entry (pq s) \<and> g_score t = distances s \<and> a_previous t = previous s)"

section \<open>Scenarios\<close>

text \<open>
  The scenario of the specification: nodes 0, 1, 2 with the edges \<open>(0, 1, 5)\<close> and
  \<open>(1, 2, 3)\<close>, and the isolated node 3.
\<close>

definition scenario :: simple_graph where
  "scenario = build [AddNode 0 0.31 32.57, AddNode 1 0.32 32.58, AddNode 2 0.33 32.59,
                     AddNode 3 0.34 32.6, AddEdge 0 1 5, AddEdge 1 2 3]"

text \<open>Two graphs that \<^verbatim>\<open>add_edge\<close> accepts, with negative travel times.\<close>

definition negative_cycle :: simple_graph where
  "negative_cycle = build [AddEdge 0 1 (- 1), AddEdge 1 2 (- 5)]"

definition negative_edge :: simple_graph where
  "negative_edge = build [AddEdge 0 1 (- 1)]"

text \<open>
  The states the main loop of \<^verbatim>\<open>dijkstra\<close> runs through on \<open>negative_edge\<close>: one queue
  entry, for node 0 or node 1, whose key undercuts the distance of the other node.
\<close>

definition bouncing :: "dijkstra_state \<Rightarrow> bool" where
  "bouncing s =
     (\<exists>d n. (n = 0 \<or> n = 1) \<and> pq s = [(d, n)] \<and> distances s n = Some d \<and>
            (\<forall>u. distances s (1 - n) = Some u \<longrightarrow> d - 1 < u))"

text \<open>
  A state of the loop of \<^verbatim>\<open>greedy_tsp\<close> that the loop body leaves as it is: stops remain,
  and the scan ends with \<^verbatim>\<open>nearest\<close> equal to \<^verbatim>\<open>None\<close> or to node 0.
\<close>

definition stuck :: "simple_graph \<Rightarrow> int list \<Rightarrow> int \<Rightarrow> bool" where
  "stuck g unvisited current =
     (unvisited \<noteq> [] \<and>
      (\<exists>found. nearest_scan g current unvisited (None, Inf) = Some found \<and>
         (fst found = None \<or> fst found = Some 0)))"

section \<open>Properties of the graph store\<close>

lemma init_graph_neighbors: "get_neighbors init_graph n = []"
  by (simp add: get_neighbors_def init_graph_def)


lemma get_neighbors_add_edge:
  "get_neighbors (add_edge g a b w) x =
     get_neighbors g x @ (if x = a then [(b, w)] else []) @ (if x = b then [(a, w)] else [])"
  by (auto simp: get_neighbors_def add_edge_def Let_def map_of_map_entry update_conv'
           split: option.splits)

lemma get_neighbors_add_node:
  "get_neighbors (add_node g n lat lon) x = (if x = n then [] else get_neighbors g x)"
  by (auto simp: get_neighbors_def add_node_def Let_def update_conv' split: option.splits)

lemma symmetric_add_edge: "symmetric g \<Longrightarrow> symmetric (add_edge g a b w)"
  unfolding symmetric_def by (auto simp: get_neighbors_add_edge split: if_splits)

lemma symmetric_add_node_iff:
  assumes sym: "symmetric g"
  shows "symmetric (add_node g n lat lon) = list_all (\<lambda>e. fst e = n) (get_neighbors g n)"
proof
  assume sym': "symmetric (add_node g n lat lon)"
  have "b = n" if "(b, w) \<in> set (get_neighbors g n)" for b w
  proof (rule ccontr)
    assume "b \<noteq> n"
    from sym that have "(n, w) \<in> set (get_neighbors g b)" by (auto simp: symmetric_def)
    with \<open>b \<noteq> n\<close> have "(n, w) \<in> set (get_neighbors (add_node g n lat lon) b)"
      by (simp add: get_neighbors_add_node)
    with sym' have "(b, w) \<in> set (get_neighbors (add_node g n lat lon) n)"
      by (auto simp: symmetric_def)
    then show False by (simp add: get_neighbors_add_node)
  qed
  then show "list_all (\<lambda>e. fst e = n) (get_neighbors g n)"
    by (auto simp: list_all_iff)
next
  assume own: "list_all (\<lambda>e. fst e = n) (get_neighbors g n)"
  show "symmetric (add_node g n lat lon)"
    unfolding symmetric_def
  proof (intro allI impI)
    fix a b w assume e: "(b, w) \<in> set (get_neighbors (add_node g n lat lon) a)"
    then have an: "a \<noteq> n" and old: "(b, w) \<in> set (get_neighbors g a)"
      by (auto simp: get_neighbors_add_node split: if_splits)
    from sym old have mirror: "(a, w) \<in> set (get_neighbors g b)" by (auto simp: symmetric_def)
    have "b \<noteq> n"
    proof
      assume "b = n"
      with mirror own have "a = n" by (auto simp: list_all_iff)
      with an show False by simp
    qed
    with mirror show "(a, w) \<in> set (get_neighbors (add_node g n lat lon) b)"
      by (simp add: get_neighbors_add_node)
  qed
qed

lemma symmetric_foldl:
  "symmetric g \<Longrightarrow> insertions_safe g ops \<Longrightarrow> symmetric (foldl apply_op g ops)"
proof (induction ops arbitrary: g)
  case Nil
  then show ?case by simp
next
  case (Cons x ops)
  then show ?case
    by (cases x) (auto intro: symmetric_add_edge simp: symmetric_add_node_iff)
qed

lemma symmetric_init: "symmetric init_graph"
  by (simp add: symmetric_def init_graph_neighbors)

lemma unmentioned_foldl:
  "n \<notin> set (concat (map op_ids ops)) \<Longrightarrow> get_neighbors (foldl apply_op g ops) n = get_neighbors g n"
proof (induction ops arbitrary: g)
  case Nil
  then show ?case by simp
next
  case (Cons x ops)
  then show ?case
    by (cases x) (auto simp: get_neighbors_add_edge get_neighbors_add_node)
qed

text \<open>
  Claim C5. Right after \<^verbatim>\<open>add_edge(a, b, w)\<close>, on any graph state, \<open>(b, w)\<close> is among
  the neighbours of \<open>a\<close> and \<open>(a, w)\<close> among those of \<open>b\<close>; and in a graph built from
  the empty one, a node id that no call has named (never added, never the endpoint of an
  edge) has the empty list of neighbours.
\<close>

theorem add_edge_neighbors:
  "(b, w) \<in> set (get_neighbors (add_edge g a b w) a) \<and>
   (a, w) \<in> set (get_neighbors (add_edge g a b w) b) \<and>
   (n \<notin> set (concat (map op_ids ops)) \<longrightarrow> get_neighbors (build ops) n = [])"
  by (simp add: get_neighbors_add_edge build_def unmentioned_foldl init_graph_neighbors)

text \<open>
  Claim C5, at a concrete input: node 2 is named by no call of the history.
\<close>

theorem add_edge_neighbors_witness:
  "(2::int) \<notin> set (concat (map op_ids [AddNode 0 0.31 32.57, AddEdge 0 1 5])) \<and>
   get_neighbors (build [AddNode 0 0.31 32.57, AddEdge 0 1 5]) 2 = [] \<and>
   (1, 5) \<in> set (get_neighbors (add_edge init_graph 0 1 5) 0) \<and>
   (0, 5) \<in> set (get_neighbors (add_edge init_graph 0 1 5) 1)"
  using add_edge_neighbors [of 1 5 init_graph 0 2 "[AddNode 0 0.31 32.57, AddEdge 0 1 5]"]
  by simp

text \<open>
  Claim C4, as amended. \<^verbatim>\<open>add_edge\<close> preserves the symmetry of the adjacency lists;
  \<^verbatim>\<open>add_node\<close> on a symmetric graph preserves it exactly when the node has, at that
  moment, no edge to a node other than itself; so every history in which each
  \<^verbatim>\<open>add_node\<close> meets such a node (all nodes before all edges, for one) builds a symmetric
  graph.
\<close>

theorem symmetric_preserved:
  "(symmetric g \<longrightarrow> symmetric (add_edge g a b w)) \<and>
   (symmetric g \<longrightarrow>
      symmetric (add_node g n lat lon) = list_all (\<lambda>e. fst e = n) (get_neighbors g n)) \<and>
   (insertions_safe init_graph ops \<longrightarrow> symmetric (build ops))"
  by (auto simp: build_def symmetric_add_node_iff
      intro: symmetric_add_edge symmetric_foldl symmetric_init)

lemma safe_example:
  "insertions_safe init_graph
     [AddNode 0 0.31 32.57, AddNode 1 0.32 32.58, AddEdge 0 1 5, AddNode 2 0.3 32.5, AddEdge 1 2 3]"
  by (simp add: get_neighbors_add_edge get_neighbors_add_node init_graph_neighbors)

text \<open>
  A node whose only edge is a loop on itself can be inserted again: its list is emptied,
  and no other list mentions it.
\<close>

lemma self_loop_reinsertion: "symmetric (build [AddEdge 1 1 4, AddNode 1 0.31 32.57])"
  unfolding build_def
  by (rule symmetric_foldl [OF symmetric_init])
    (simp add: get_neighbors_add_edge init_graph_neighbors)

text \<open>
  Claim C4 as amended, at a concrete history, and at the insertion of node 0 before and
  after the edge \<open>(0, 1, 5)\<close>.
\<close>

theorem symmetric_preserved_witness:
  "symmetric init_graph \<and>
   list_all (\<lambda>e. fst e = 0) (get_neighbors init_graph 0) \<and>
   insertions_safe init_graph
     [AddNode 0 0.31 32.57, AddNode 1 0.32 32.58, AddEdge 0 1 5, AddNode 2 0.3 32.5, AddEdge 1 2 3] \<and>
   symmetric (add_edge init_graph 0 1 5) \<and>
   symmetric (add_node init_graph 0 0.31 32.57) \<and>
   \<not> list_all (\<lambda>e. fst e = 0) (get_neighbors (add_edge init_graph 0 1 5) 0) \<and>
   \<not> symmetric (add_node (add_edge init_graph 0 1 5) 0 0.31 32.57) \<and>
   symmetric (build
     [AddNode 0 0.31 32.57, AddNode 1 0.32 32.58, AddEdge 0 1 5, AddNode 2 0.3 32.5, AddEdge 1 2 3])"
proof -
  note t1 = symmetric_preserved [of init_graph 0 1 5 0 "0.31" "32.57"
      "[AddNode 0 0.31 32.57, AddNode 1 0.32 32.58, AddEdge 0 1 5, AddNode 2 0.3 32.5, AddEdge 1 2 3]"]
  note t2 = symmetric_preserved [of "add_edge init_graph 0 1 5" 0 1 5 0 "0.31" "32.57" "[]"]
  have own: "list_all (\<lambda>e. fst e = 0) (get_neighbors init_graph (0::int))"
    by (simp add: init_graph_neighbors)
  have other: "\<not> list_all (\<lambda>e. fst e = 0) (get_neighbors (add_edge init_graph 0 1 5) (0::int))"
    by (simp add: get_neighbors_add_edge init_graph_neighbors)
  from t1 symmetric_init have e: "symmetric (add_edge init_graph 0 1 5)" by blast
  from t1 symmetric_init own have n: "symmetric (add_node init_graph 0 0.31 32.57)" by blast
  from t1 safe_example have b: "symmetric (build
     [AddNode 0 0.31 32.57, AddNode 1 0.32 32.58, AddEdge 0 1 5, AddNode 2 0.3 32.5, AddEdge 1 2 3])"
    by blast
  from t2 e other have r: "\<not> symmetric (add_node (add_edge init_graph 0 1 5) 0 0.31 32.57)"
    by blast
  from symmetric_init own safe_example e n other r b show ?thesis by (intro conjI)
qed

text \<open>
  Claim C4 as stated fails: re-inserting node 0 after the edge \<open>(0, 1, 5)\<close> empties the
  list of node 0 and leaves \<open>(0, 5)\<close> in the list of node 1.
\<close>

theorem reinsertion_breaks_symmetry:
  "(0, 5) \<in> set (get_neighbors (build [AddNode 0 0.31 32.57, AddNode 1 0.32 32.58, AddEdge 0 1 5, AddNode 0 0.31 32.57]) 1) \<and>
   (1, 5) \<notin> set (get_neighbors (build [AddNode 0 0.31 32.57, AddNode 1 0.32 32.58, AddEdge 0 1 5, AddNode 0 0.31 32.57]) 0)"
  by (simp add: build_def get_neighbors_add_edge get_neighbors_add_node init_graph_neighbors)

lemma py_int_range: "(0 \<le> py_int x \<and> py_int x < 10) = (- 1 < x \<and> x < 10)"
  unfolding py_int_def by (auto simp: floor_less_iff le_ceiling_iff)

lemma py_int_below_zero: "- 1 < x \<Longrightarrow> x < 0 \<Longrightarrow> py_int x = 0 \<and> \<lfloor>x\<rfloor> = - 1"
  unfolding py_int_def by (auto simp: ceiling_eq_iff floor_eq_iff)

text \<open>
  What \<^verbatim>\<open>add_node\<close> does to the grid, in terms of the two products it computes: the
  node goes into the bucket of the truncated products when both lie strictly between
  \<open>-1\<close> and \<open>10\<close>, and the grid is left alone otherwise. The position is stored in
  either case.
\<close>

lemma grid_add_node_in:
  "py_int (lat_cell lat) = int x \<Longrightarrow> py_int (lon_cell lon) = int y \<Longrightarrow> x < 10 \<Longrightarrow> y < 10 \<Longrightarrow>
   grid (add_node g n lat lon) = (grid g)[x := (grid g ! x)[y := grid g ! x ! y @ [n]]]"
  by (simp add: add_node_def Let_def)

lemma grid_add_node_out:
  "\<not> (- 1 < lat_cell lat \<and> lat_cell lat < 10 \<and> - 1 < lon_cell lon \<and> lon_cell lon < 10) \<Longrightarrow>
   grid (add_node g n lat lon) = grid g"
  using py_int_range [of "lat_cell lat"] py_int_range [of "lon_cell lon"]
  by (auto simp: add_node_def Let_def)

lemma positions_of_add_node:
  "map_of (positions (add_node g n lat lon)) n = Some (fl lat, fl lon)"
  by (simp add: add_node_def Let_def update_conv')

text \<open>
  The values the code computes: the literal \<^verbatim>\<open>0.3\<close>, and the products at three
  positions. Bwaise \<open>(0.35, 32.56)\<close> of the data set has \<open>(lat - 0.3) * 20\<close> just below 1
  and lands in row 0; at \<open>lat = 0.25\<close> and \<open>lon = 32.45\<close> both products are just above
  \<open>-1\<close> and the node is put into bucket \<open>(0, 0)\<close>.
\<close>

lemma fl_literal: "fl 0.3 = 5404319552844595 / 18014398509481984"
  by (simp add: fl_def binade.simps rne_def pow2_def Let_def)

lemma cells_bwaise:
  "lat_cell 0.35 = 4503599627370495 / 4503599627370496 \<and>
   py_int (lat_cell 0.35) = 0 \<and> py_int (lon_cell 32.56) = 1"
  by (simp add: lat_cell_def lon_cell_def fl_def binade.simps rne_def pow2_def py_int_def Let_def)

lemma cells_corner: "py_int (lat_cell 0.25) = 0 \<and> py_int (lon_cell 32.45) = 0"
  by (simp add: lat_cell_def lon_cell_def fl_def binade.simps rne_def pow2_def py_int_def Let_def)

lemma cells_outside:
  "lat_cell 0.28 = - 7205759403792780 / 18014398509481984 \<and>
   py_int (lat_cell 0.28) = 0 \<and> py_int (lon_cell 32.6) = 2"
  by (simp add: lat_cell_def lon_cell_def fl_def binade.simps rne_def pow2_def py_int_def Let_def)

lemma add_node_bwaise: "grid (add_node init_graph 12 0.35 32.56) ! 0 ! 1 = [12]"
  using grid_add_node_in [where lat = "0.35" and lon = "32.56" and x = 0 and y = 1
      and g = init_graph and n = 12] cells_bwaise
  by (simp add: init_graph_def)

lemma add_node_corner: "grid (add_node init_graph 1 0.25 32.45) ! 0 ! 0 = [1]"
  using grid_add_node_in [where lat = "0.25" and lon = "32.45" and x = 0 and y = 0
      and g = init_graph and n = 1] cells_corner
  by (simp add: init_graph_def)

text \<open>
  Claim C8 fails on the code. At \<open>lat = 0.28\<close> the code computes
  \<open>(lat - 0.3) * 20 = -0.39999999999999925\<close>, whose floor is \<open>-1\<close>, outside the range
  \<open>0..9\<close> (the floor of the exact product \<open>-0.4\<close> is \<open>-1\<close> as well); \<^verbatim>\<open>int()\<close> rounds
  it to \<open>0\<close>, the test \<^verbatim>\<open>0 <= grid_x\<close> passes, and node 7 is put into bucket \<open>(0, 2)\<close>.
\<close>

theorem add_node_truncates:
  "\<lfloor>lat_cell 0.28\<rfloor> = - 1 \<and> \<lfloor>(0.28 - 0.3) * 20 :: real\<rfloor> = - 1 \<and>
   py_int (lat_cell 0.28) = 0 \<and>
   grid (add_node init_graph 7 0.28 32.6) ! 0 ! 2 = [7]"
proof -
  have c: "lat_cell 0.28 = - 7205759403792780 / 18014398509481984"
    "py_int (lat_cell 0.28) = 0" "py_int (lon_cell 32.6) = 2"
    using cells_outside by blast+
  have "\<lfloor>lat_cell 0.28\<rfloor> = - 1" unfolding c(1) by simp
  moreover have "\<lfloor>(0.28 - 0.3) * 20 :: real\<rfloor> = - 1" by simp
  moreover have "grid (add_node init_graph 7 0.28 32.6) ! 0 ! 2 = [7]"
    using grid_add_node_in [where lat = "0.28" and lon = "32.6" and x = 0 and y = 2
        and g = init_graph and n = 7] c(2,3)
    by (simp add: init_graph_def)
  ultimately show ?thesis using c(2) by blast
qed

lemma run_workers_no_requests: "run_workers g [] sched futures = Some futures"
  by (induction sched) simp_all

text \<open>
  Claim C9, as amended. With fewer than two stops \<^verbatim>\<open>greedy_tsp\<close> returns the stops
  unchanged with cost 0, and \<^verbatim>\<open>simple_parallel\<close> on the empty list of requests returns
  the empty list of results: neither signals an error.
\<close>

theorem short_requests_return:
  "(length stops < 2 \<longrightarrow> greedy_tsp set_iter g stops = Some (stops, Fin 0)) \<and>
   simple_parallel sched g [] = Some []"
  by (simp add: greedy_tsp_def simple_parallel_def run_workers_no_requests)

text \<open>
  Claim C9 as amended, at a single stop.
\<close>

theorem short_requests_return_witness:
  "length [4::int] < 2 \<and> greedy_tsp remdups init_graph [4] = Some ([4], Fin 0) \<and>
   simple_parallel [] init_graph [] = Some []"
  using short_requests_return [of "[4]" remdups init_graph "[]"]
  by simp

text \<open>
  Claim C9 as stated fails: on the empty list both functions return a normal result.
\<close>

theorem empty_requests_accepted:
  "greedy_tsp remdups init_graph [] = Some ([], Fin 0) \<and>
   simple_parallel [] init_graph [] = Some []"
  by (simp add: greedy_tsp_def simple_parallel_def)

section \<open>The main loop keeps its invariant and ends\<close>

lemma cost_less_get: "cost_less (Fin v) (get_or_inf d k) = (\<forall>u. d k = Some u \<longrightarrow> v < u)"
  by (simp add: get_or_inf_def split: option.splits)

lemma cost_less_get': "cost_less (get_or_inf d k) (Fin v) = (\<exists>u. d k = Some u \<and> u < v)"
  by (simp add: get_or_inf_def split: option.splits)

lemma relax_improved:
  "\<forall>u. distances s x = Some u \<longrightarrow> d + w < u \<Longrightarrow>
   dijkstra_relax c d s (x, w) =
     s\<lparr>distances := (distances s)(x \<mapsto> d + w), previous := (previous s)(x \<mapsto> c),
       pq := (d + w, x) # pq s\<rparr>"
  by (simp add: dijkstra_relax_def cost_less_get heappush_def Let_def)

lemma relax_unchanged:
  "distances s x = Some u \<Longrightarrow> \<not> d + w < u \<Longrightarrow> dijkstra_relax c d s (x, w) = s"
  by (simp add: dijkstra_relax_def cost_less_get Let_def)

lemma nonneg_weightsD:
  "nonneg_weights g \<Longrightarrow> (x, w) \<in> set (get_neighbors g c) \<Longrightarrow> 0 \<le> w"
proof -
  assume nn: "nonneg_weights g" and e: "(x, w) \<in> set (get_neighbors g c)"
  from e obtain es where es: "map_of (adjacency g) c = Some es" "(x, w) \<in> set es"
    by (cases "map_of (adjacency g) c") (auto simp: get_neighbors_def)
  from es(1) have "(c, es) \<in> set (adjacency g)" by (rule map_of_SomeD)
  with nn es(2) show ?thesis by (fastforce simp: nonneg_weights_def list_all_iff)
qed

lemma heappop_least:
  assumes "h \<noteq> []"
  shows "fst (heappop h) \<in> set h" and "\<And>y. y \<in> set h \<Longrightarrow> fst (heappop h) \<le> y"
    and "snd (heappop h) = remove1 (fst (heappop h)) h"
  using assms by (simp_all add: heappop_def min_list_Min)

lemma pair_le_fst: "(a :: int, b :: int) \<le> (c, d) \<Longrightarrow> a \<le> c"
  by (auto simp: less_eq_prod_def)


lemma relax_step_improved:
  assumes inv: "search_inv g start d s"
    and dc: "distances s c = Some d" and nc: "(d, c) \<notin> set (pq s)"
    and e: "(x, w) \<in> set (get_neighbors g c)" and w: "0 \<le> w"
    and imp: "\<forall>u. distances s x = Some u \<longrightarrow> d + w < u"
  defines "s' \<equiv> s\<lparr>distances := (distances s)(x \<mapsto> d + w), previous := (previous s)(x \<mapsto> c),
                      pq := (d + w, x) # pq s\<rparr>"
  shows "search_inv g start d s'" and "settled s' = settled s"
proof -
  from inv have st: "start_ok start d s" and qu: "queue_ok d s" and pr: "prev_ok g s"
    and di: "dist_ok g start d s" and ra: "rank_ok s"
    by (simp_all add: search_inv_def)
  have f1: "x \<noteq> c" using dc imp w by auto
  have f2: "x \<notin> settled s"
  proof
    assume "x \<in> settled s"
    then obtain u where u: "distances s x = Some u" "(u, x) \<notin> set (pq s)"
      by (auto simp: settled_def)
    with di have "u \<le> d" by (auto simp: dist_ok_def)
    with imp u(1) w show False by auto
  qed
  have f3: "x \<noteq> start" using st imp w by (auto simp: start_ok_def)
  have f4: "d + w < k" if "(k, x) \<in> set (pq s)" for k
  proof -
    from qu that obtain d' where "distances s x = Some d'" "d' \<le> k"
      by (auto simp: queue_ok_def)
    with imp show ?thesis by auto
  qed
  have f5: "previous s n \<noteq> Some x" for n
  proof
    assume "previous s n = Some x"
    with pr have "x \<in> settled s" by (auto simp: prev_ok_def settled_def)
    with f2 show False ..
  qed
  have "start_ok start d s'"
    using st f3 by (simp add: start_ok_def s'_def)
  moreover have "queue_ok d s'"
    unfolding queue_ok_def
  proof (intro conjI allI impI)
    show "distinct (pq s')" using qu f4 by (auto simp: queue_ok_def s'_def)
  next
    fix k n assume "(k, n) \<in> set (pq s')"
    then consider "k = d + w" "n = x" | "(k, n) \<in> set (pq s)" by (auto simp: s'_def)
    then show "d \<le> k" using w qu by cases (auto simp: queue_ok_def)
  next
    fix k n assume "(k, n) \<in> set (pq s')"
    then consider "k = d + w" "n = x" | "(k, n) \<in> set (pq s)" by (auto simp: s'_def)
    then show "\<exists>d'. distances s' n = Some d' \<and> d' \<le> k"
    proof cases
      case 1
      then show ?thesis by (simp add: s'_def)
    next
      case 2
      show ?thesis
      proof (cases "n = x")
        case True
        with 2 f4 show ?thesis by (force simp: s'_def)
      next
        case False
        with 2 qu show ?thesis by (auto simp: queue_ok_def s'_def)
      qed
    qed
  qed
  moreover have "prev_ok g s'"
    unfolding prev_ok_def
  proof (intro allI impI)
    fix n c' assume p: "previous s' n = Some c'"
    show "\<exists>dc w. distances s' c' = Some dc \<and> (dc, c') \<notin> set (pq s') \<and>
                 (n, w) \<in> set (get_neighbors g c') \<and> distances s' n = Some (dc + w)"
    proof (cases "n = x")
      case True
      with p have "c' = c" by (simp add: s'_def)
      with True dc nc e f1 show ?thesis
        by (intro exI [of _ d] exI [of _ w]) (auto simp: s'_def)
    next
      case False
      with p have old: "previous s n = Some c'" by (simp add: s'_def)
      with f5 have "c' \<noteq> x" by auto
      moreover from old pr obtain dc w' where "distances s c' = Some dc" "(dc, c') \<notin> set (pq s)"
        "(n, w') \<in> set (get_neighbors g c')" "distances s n = Some (dc + w')"
        unfolding prev_ok_def by blast
      ultimately show ?thesis using False
        by (intro exI [of _ dc] exI [of _ w']) (auto simp: s'_def)
    qed
  qed
  moreover have "dist_ok g start d s'"
    unfolding dist_ok_def
  proof (intro allI impI)
    fix n dn assume dn: "distances s' n = Some dn"
    show "(n = start \<or> previous s' n \<noteq> None) \<and> ((dn, n) \<in> set (pq s') \<or> dn \<le> d) \<and>
          reachable g start n"
    proof (cases "n = x")
      case True
      from di dc have "reachable g start c" by (auto simp: dist_ok_def)
      then have "reachable g start x" using e by (rule reach_step)
      with True dn show ?thesis by (auto simp: s'_def)
    next
      case False
      with dn have "distances s n = Some dn" by (simp add: s'_def)
      with di False show ?thesis by (auto simp: dist_ok_def s'_def)
    qed
  qed
  moreover have "rank_ok s'"
  proof -
    from ra obtain r :: "int \<Rightarrow> nat" where r: "\<And>n c. previous s n = Some c \<Longrightarrow> r c < r n"
      by (auto simp: rank_ok_def)
    have "\<forall>n c'. previous s' n = Some c' \<longrightarrow> (r(x := Suc (r c))) c' < (r(x := Suc (r c))) n"
    proof (intro allI impI)
      fix n c' assume p: "previous s' n = Some c'"
      show "(r(x := Suc (r c))) c' < (r(x := Suc (r c))) n"
      proof (cases "n = x")
        case True
        with p f1 show ?thesis by (simp add: s'_def)
      next
        case False
        with p have old: "previous s n = Some c'" by (simp add: s'_def)
        with f5 have "c' \<noteq> x" by auto
        with False r [OF old] show ?thesis by simp
      qed
    qed
    then show ?thesis unfolding rank_ok_def by blast
  qed
  ultimately show "search_inv g start d s'" by (simp add: search_inv_def)
  show "settled s' = settled s"
  proof (intro set_eqI iffI)
    fix n assume "n \<in> settled s'"
    then show "n \<in> settled s" by (auto simp: settled_def s'_def split: if_splits)
  next
    fix n assume n: "n \<in> settled s"
    with f2 have "n \<noteq> x" by auto
    with n show "n \<in> settled s'" by (auto simp: settled_def s'_def)
  qed
qed


lemma relax_step:
  assumes inv: "search_inv g start d s"
    and dc: "distances s c = Some d" and nc: "(d, c) \<notin> set (pq s)"
    and e: "(x, w) \<in> set (get_neighbors g c)" and w: "0 \<le> w"
  defines "s' \<equiv> dijkstra_relax c d s (x, w)"
  shows "search_inv g start d s' \<and> distances s' c = Some d \<and> (d, c) \<notin> set (pq s') \<and>
         settled s' = settled s \<and> x \<in> dom (distances s') \<and>
         dom (distances s) \<subseteq> dom (distances s')"
proof (cases "\<forall>u. distances s x = Some u \<longrightarrow> d + w < u")
  case True
  then have s': "s' = s\<lparr>distances := (distances s)(x \<mapsto> d + w),
      previous := (previous s)(x \<mapsto> c), pq := (d + w, x) # pq s\<rparr>"
    unfolding s'_def by (rule relax_improved)
  from True dc w have "x \<noteq> c" by auto
  with relax_step_improved [OF inv dc nc e w True] dc nc show ?thesis
    unfolding s' by auto
next
  case False
  then obtain u where u: "distances s x = Some u" "\<not> d + w < u" by auto
  then have "s' = s" unfolding s'_def by (rule relax_unchanged)
  with inv dc nc u(1) show ?thesis by auto
qed

lemma relax_fold:
  assumes nn: "nonneg_weights g"
  shows "search_inv g start d s \<Longrightarrow> distances s c = Some d \<Longrightarrow> (d, c) \<notin> set (pq s) \<Longrightarrow>
         set es \<subseteq> set (get_neighbors g c) \<Longrightarrow>
         search_inv g start d (foldl (dijkstra_relax c d) s es) \<and>
         settled (foldl (dijkstra_relax c d) s es) = settled s \<and>
         fst ` set es \<subseteq> dom (distances (foldl (dijkstra_relax c d) s es)) \<and>
         dom (distances s) \<subseteq> dom (distances (foldl (dijkstra_relax c d) s es))"
proof (induction es arbitrary: s)
  case Nil
  then show ?case by simp
next
  case (Cons a es)
  obtain x w where a: "a = (x, w)" by (cases a)
  with Cons.prems have e: "(x, w) \<in> set (get_neighbors g c)" by simp
  with nn have w: "0 \<le> w" by (rule nonneg_weightsD)
  let ?s = "dijkstra_relax c d s (x, w)"
  from relax_step [OF Cons.prems(1-3) e w]
  have step: "search_inv g start d ?s" "distances ?s c = Some d" "(d, c) \<notin> set (pq ?s)"
    "settled ?s = settled s" "x \<in> dom (distances ?s)" "dom (distances s) \<subseteq> dom (distances ?s)"
    by simp_all
  from Cons.prems(4) have "set es \<subseteq> set (get_neighbors g c)" by simp
  from Cons.IH [OF step(1-3) this]
  have ih: "search_inv g start d (foldl (dijkstra_relax c d) ?s es)"
    "settled (foldl (dijkstra_relax c d) ?s es) = settled ?s"
    "fst ` set es \<subseteq> dom (distances (foldl (dijkstra_relax c d) ?s es))"
    "dom (distances ?s) \<subseteq> dom (distances (foldl (dijkstra_relax c d) ?s es))"
    by simp_all
  have "fst ` set (a # es) \<subseteq> dom (distances (foldl (dijkstra_relax c d) ?s es))"
    using ih(3,4) step(5) a by auto
  moreover have "dom (distances s) \<subseteq> dom (distances (foldl (dijkstra_relax c d) ?s es))"
    using ih(4) step(6) by blast
  ultimately show ?case using ih(1,2) step(4) by (simp add: a)
qed

lemma pop_inv:
  assumes inv: "search_inv g start m s" and ne: "pq s \<noteq> []"
  defines "d \<equiv> fst (fst (heappop (pq s)))" and "c \<equiv> snd (fst (heappop (pq s)))"
    and "s1 \<equiv> s\<lparr>pq := snd (heappop (pq s))\<rparr>"
  shows "search_inv g start d s1" and "(d, c) \<in> set (pq s)" and "(d, c) \<notin> set (pq s1)"
    and "\<exists>u. distances s c = Some u \<and> u \<le> d"
    and "length (pq s1) < length (pq s)" and "settled s \<subseteq> settled s1"
    and "settled s1 \<subseteq> insert c (settled s)"
    and "distances s c \<noteq> Some d \<Longrightarrow> settled s1 = settled s"
    and "distances s c = Some d \<Longrightarrow> c \<notin> settled s \<and> c \<in> settled s1"
proof -
  from inv have st: "start_ok start m s" and qu: "queue_ok m s" and pr: "prev_ok g s"
    and di: "dist_ok g start m s" and ra: "rank_ok s"
    by (simp_all add: search_inv_def)
  have dc: "fst (heappop (pq s)) = (d, c)" by (simp add: d_def c_def)
  from heappop_least(1) [OF ne] show mem: "(d, c) \<in> set (pq s)" by (simp add: dc)
  have least: "d \<le> k" if "(k, n) \<in> set (pq s)" for k n
    using heappop_least(2) [OF ne that] unfolding dc by (rule pair_le_fst)
  have q1: "pq s1 = remove1 (d, c) (pq s)"
    using heappop_least(3) [OF ne] by (simp add: s1_def dc)
  have ds1: "distances s1 = distances s" "previous s1 = previous s" by (simp_all add: s1_def)
  from qu have dist: "distinct (pq s)" by (simp add: queue_ok_def)
  then have set1: "set (pq s1) = set (pq s) - {(d, c)}" by (simp add: q1)
  then show "(d, c) \<notin> set (pq s1)" by simp
  from qu mem show u: "\<exists>u. distances s c = Some u \<and> u \<le> d" by (auto simp: queue_ok_def)
  from qu mem have md: "m \<le> d" by (auto simp: queue_ok_def)
  from mem show "length (pq s1) < length (pq s)"
    by (simp add: q1 length_remove1) (cases "pq s", auto)
  show "settled s \<subseteq> settled s1" by (auto simp: settled_def set1 ds1)
  show "settled s1 \<subseteq> insert c (settled s)" by (auto simp: settled_def set1 ds1)
  show "settled s1 = settled s" if "distances s c \<noteq> Some d"
    using that by (auto simp: settled_def set1 ds1)
  show "c \<notin> settled s \<and> c \<in> settled s1" if "distances s c = Some d"
    using that mem by (auto simp: settled_def set1 ds1)
  have "start_ok start d s1" using st md by (simp add: start_ok_def ds1)
  moreover have "queue_ok d s1"
    using qu dist least by (auto simp: queue_ok_def set1 ds1 q1)
  moreover have "prev_ok g s1"
    using pr unfolding prev_ok_def by (simp add: ds1 set1) blast
  moreover have "dist_ok g start d s1"
    unfolding dist_ok_def
  proof (intro allI impI)
    fix n dn assume "distances s1 n = Some dn"
    then have dn: "distances s n = Some dn" by (simp add: ds1)
    with di have a: "n = start \<or> previous s n \<noteq> None" and b: "(dn, n) \<in> set (pq s) \<or> dn \<le> m"
      and r: "reachable g start n" by (auto simp: dist_ok_def)
    from b md least have "(dn, n) \<in> set (pq s1) \<or> dn \<le> d"
      by (cases "(dn, n) = (d, c)") (auto simp: set1)
    with a r show "(n = start \<or> previous s1 n \<noteq> None) \<and> ((dn, n) \<in> set (pq s1) \<or> dn \<le> d) \<and>
          reachable g start n" by (simp add: ds1)
  qed
  moreover have "rank_ok s1" using ra by (simp add: rank_ok_def ds1)
  ultimately show "search_inv g start d s1" by (simp add: search_inv_def)
qed


lemma neighbor_in_nodes: "(x, w) \<in> set (get_neighbors g c) \<Longrightarrow> x \<in> set (graph_nodes g)"
proof -
  assume e: "(x, w) \<in> set (get_neighbors g c)"
  then obtain es where es: "map_of (adjacency g) c = Some es" "(x, w) \<in> set es"
    by (cases "map_of (adjacency g) c") (auto simp: get_neighbors_def)
  from es(1) have "(c, es) \<in> set (adjacency g)" by (rule map_of_SomeD)
  with es(2) show ?thesis by (force simp: graph_nodes_def)
qed

lemma reachable_nodes: "reachable g a b \<Longrightarrow> b = a \<or> b \<in> set (graph_nodes g)"
  by (induction rule: reachable.induct) (auto dest: neighbor_in_nodes)

lemma settled_nodes:
  "search_inv g start m s \<Longrightarrow> settled s \<subseteq> insert start (set (graph_nodes g))"
  by (auto simp: search_inv_def dist_ok_def settled_def dest!: reachable_nodes)

lemma closed_mono:
  "closed_except g X s \<Longrightarrow> settled t \<subseteq> settled s \<union> Y \<Longrightarrow>
   dom (distances s) \<subseteq> dom (distances t) \<Longrightarrow> closed_except g (X \<union> Y) t"
  unfolding closed_except_def by blast

lemma closed_finish:
  "closed_except g {c} t \<Longrightarrow> fst ` set (get_neighbors g c) \<subseteq> dom (distances t) \<Longrightarrow>
   closed_except g {} t"
  unfolding closed_except_def by blast

lemma loop_empty: "pq s = [] \<Longrightarrow> dijkstra_loop g e s = Some s"
  by (subst dijkstra_loop.simps) simp

lemma loop_found:
  "pq s \<noteq> [] \<Longrightarrow> snd (fst (heappop (pq s))) = e \<Longrightarrow>
   dijkstra_loop g e s = Some (s\<lparr>pq := snd (heappop (pq s))\<rparr>)"
  by (subst dijkstra_loop.simps) (simp add: Let_def)

lemma loop_stale:
  "pq s \<noteq> [] \<Longrightarrow> snd (fst (heappop (pq s))) \<noteq> e \<Longrightarrow>
   distances s (snd (fst (heappop (pq s)))) = Some u \<Longrightarrow> u < fst (fst (heappop (pq s))) \<Longrightarrow>
   dijkstra_loop g e s = dijkstra_loop g e (s\<lparr>pq := snd (heappop (pq s))\<rparr>)"
  by (subst dijkstra_loop.simps) (simp add: Let_def cost_less_get')

lemma loop_relax:
  "pq s \<noteq> [] \<Longrightarrow> snd (fst (heappop (pq s))) \<noteq> e \<Longrightarrow>
   distances s (snd (fst (heappop (pq s)))) = Some (fst (fst (heappop (pq s)))) \<Longrightarrow>
   dijkstra_loop g e s =
     dijkstra_loop g e
       (foldl (dijkstra_relax (snd (fst (heappop (pq s)))) (fst (fst (heappop (pq s)))))
          (s\<lparr>pq := snd (heappop (pq s))\<rparr>) (get_neighbors g (snd (fst (heappop (pq s))))))"
  by (subst dijkstra_loop.simps) (simp add: Let_def cost_less_get')

lemma dijkstra_loop_returns:
  assumes nn: "nonneg_weights g"
  shows "search_inv g start m s \<Longrightarrow> closed_except g {} s \<Longrightarrow>
     \<exists>r m'. dijkstra_loop g e s = Some r \<and> search_inv g start m' r \<and>
        (e \<in> dom (distances r) \<or> (pq r = [] \<and> closed_except g {} r))"
proof (induction s arbitrary: m rule: wf_induct_rule
    [OF wf_measures [of "[\<lambda>s. card (insert start (set (graph_nodes g)) - settled s), \<lambda>s. length (pq s)]"]])
  case (1 s)
  let ?V = "insert start (set (graph_nodes g))"
  note inv = \<open>search_inv g start m s\<close> and cl = \<open>closed_except g {} s\<close>
  show ?case
  proof (cases "pq s = []")
    case True
    with inv cl show ?thesis by (auto simp: loop_empty)
  next
    case ne: False
    define d where "d = fst (fst (heappop (pq s)))"
    define c where "c = snd (fst (heappop (pq s)))"
    define s1 where "s1 = s\<lparr>pq := snd (heappop (pq s))\<rparr>"
    note pop = pop_inv [OF inv ne, folded d_def c_def s1_def]
    have ds1: "distances s1 = distances s" by (simp add: s1_def)
    from pop(4) obtain u where u: "distances s c = Some u" "u \<le> d" by blast
    show ?thesis
    proof (cases "c = e")
      case True
      then have "dijkstra_loop g e s = Some s1"
        using loop_found [OF ne, where e = e and g = g] by (simp add: c_def s1_def)
      moreover have "e \<in> dom (distances s1)" using u True by (auto simp: ds1)
      ultimately show ?thesis using pop(1) by blast
    next
      case nf: False
      show ?thesis
      proof (cases "u < d")
        case True
        then have eq: "dijkstra_loop g e s = dijkstra_loop g e s1"
          using loop_stale [OF ne, where e = e and g = g and u = u] nf u by (simp add: c_def d_def s1_def)
        from True u have same: "settled s1 = settled s" by (intro pop(8)) auto
        then have cl1: "closed_except g {} s1"
          using closed_mono [OF cl, of s1 "{}"] by (simp add: ds1)
        have "(s1, s) \<in> measures [\<lambda>s. card (?V - settled s), \<lambda>s. length (pq s)]"
          using same pop(5) by simp
        from "1.IH" [OF this pop(1) cl1] eq show ?thesis by simp
      next
        case False
        with u have ud: "u = d" by simp
        define s2 where "s2 = foldl (dijkstra_relax c d) s1 (get_neighbors g c)"
        have eq: "dijkstra_loop g e s = dijkstra_loop g e s2"
          using loop_relax [OF ne, where e = e and g = g] nf u ud by (simp add: c_def d_def s1_def s2_def)
        have dc1: "distances s1 c = Some d" using u ud by (simp add: ds1)
        from relax_fold [OF nn pop(1) dc1 pop(3) subset_refl]
        have inv2: "search_inv g start d s2" and set2: "settled s2 = settled s1"
          and nb: "fst ` set (get_neighbors g c) \<subseteq> dom (distances s2)"
          and dom2: "dom (distances s1) \<subseteq> dom (distances s2)"
          by (simp_all add: s2_def)
        from pop(9) u ud have cs: "c \<notin> settled s" "c \<in> settled s1" by simp_all
        have "closed_except g ({} \<union> {c}) s2"
          using cl
        proof (rule closed_mono)
          show "settled s2 \<subseteq> settled s \<union> {c}" using set2 pop(7) by auto
          show "dom (distances s) \<subseteq> dom (distances s2)" using dom2 by (simp add: ds1)
        qed
        then have cl2: "closed_except g {} s2" using nb by (simp add: closed_finish)
        have "c \<in> ?V" using settled_nodes [OF pop(1)] cs(2) by auto
        with cs pop(6) set2 have "?V - settled s2 \<subset> ?V - settled s" by auto
        then have "card (?V - settled s2) < card (?V - settled s)"
          by (intro psubset_card_mono) auto
        then have "(s2, s) \<in> measures [\<lambda>s. card (?V - settled s), \<lambda>s. length (pq s)]"
          by simp
        from "1.IH" [OF this inv2 cl2] eq show ?thesis by simp
      qed
    qed
  qed
qed


lemma init_inv:
  "search_inv g start 0 \<lparr>pq = [(0, start)], distances = [start \<mapsto> 0], previous = Map.empty\<rparr>"
  "closed_except g {} \<lparr>pq = [(0, start)], distances = [start \<mapsto> 0], previous = Map.empty\<rparr>"
  by (auto simp: search_inv_def start_ok_def queue_ok_def prev_ok_def dist_ok_def rank_ok_def
        closed_except_def settled_def intro: reach_self split: if_splits)

lemma path_cost_snoc:
  "path_cost g q c \<Longrightarrow> (n, w) \<in> set (get_neighbors g (last q)) \<Longrightarrow> path_cost g (q @ [n]) (c + w)"
proof (induction g q c rule: path_cost.induct)
  case (1 g c)
  then show ?case by simp
next
  case (2 g a c)
  then show ?case by (force simp: list_ex_iff)
next
  case (3 g a b p c)
  from "3.prems"(1) obtain e where e: "e \<in> set (get_neighbors g a)" "fst e = b"
    "path_cost g (b # p) (c - snd e)"
    by (auto simp: list_ex_iff)
  from "3.prems"(2) have "(n, w) \<in> set (get_neighbors g (last (b # p)))" by simp
  from "3.IH" [OF e(1) e(3) this] have "path_cost g (b # p @ [n]) (c + w - snd e)"
    by (simp add: algebra_simps)
  with e(1,2) show ?case by (auto simp: list_ex_iff)
qed

lemma walk_back_path:
  assumes inv: "search_inv g start m s"
    and rk: "\<forall>n c. previous s n = Some c \<longrightarrow> (rank :: int \<Rightarrow> nat) c < rank n"
  shows "distances s n = Some dn \<Longrightarrow>
     \<exists>p. walk_back (previous s) n acc = Some (acc @ p) \<and> distinct p \<and> start \<notin> set p \<and>
         (\<forall>x \<in> set p. rank x \<le> rank n) \<and> last (start # rev p) = n \<and>
         path_cost g (start # rev p) dn"
proof (induction "rank n" arbitrary: n dn acc rule: less_induct)
  case less
  from inv have st: "start_ok start m s" and pr: "prev_ok g s" and di: "dist_ok g start m s"
    by (simp_all add: search_inv_def)
  show ?case
  proof (cases "previous s n")
    case None
    then have w: "walk_back (previous s) n acc = Some acc"
      by (subst walk_back.simps) simp
    from di less.prems None have "n = start" unfolding dist_ok_def by fastforce
    with st less.prems have "dn = 0" by (simp add: start_ok_def)
    with w \<open>n = start\<close> show ?thesis by simp
  next
    case (Some c)
    then have w: "walk_back (previous s) n acc = walk_back (previous s) c (acc @ [n])"
      by (subst walk_back.simps) simp
    from pr Some less.prems obtain dc w' where c: "distances s c = Some dc"
      "(n, w') \<in> set (get_neighbors g c)" "dn = dc + w'"
      unfolding prev_ok_def by fastforce
    from rk Some have lt: "rank c < rank n" by blast
    from less.hyps [OF lt c(1), where acc = "acc @ [n]"] obtain p where p:
      "walk_back (previous s) c (acc @ [n]) = Some ((acc @ [n]) @ p)" "distinct p"
      "start \<notin> set p" "\<forall>x \<in> set p. rank x \<le> rank c" "last (start # rev p) = c"
      "path_cost g (start # rev p) dc"
      by blast
    from st Some have ns: "n \<noteq> start" by (auto simp: start_ok_def)
    from p(4) lt have "n \<notin> set p" by auto
    moreover from path_cost_snoc [OF p(6), where n = n and w = w'] c(2) p(5)
    have "path_cost g (start # rev (n # p)) dn" by (simp add: c(3))
    ultimately show ?thesis
      using w p(1-4) ns lt by (intro exI [of _ "n # p"]) auto
  qed
qed

lemma walk_back_undiscovered:
  "search_inv g start m s \<Longrightarrow> distances s n = None \<Longrightarrow> walk_back (previous s) n [] = Some []"
proof -
  assume "search_inv g start m s" "distances s n = None"
  then have "previous s n = None"
    unfolding search_inv_def prev_ok_def by (cases "previous s n") fastforce+
  then show ?thesis by (subst walk_back.simps) simp
qed

lemma closed_reaches:
  assumes cl: "closed_except g {} s" and em: "pq s = []" and st: "distances s start \<noteq> None"
  shows "reachable g start b \<Longrightarrow> b \<in> dom (distances s)"
proof (induction rule: reachable.induct)
  case reach_self
  from st show ?case by auto
next
  case (reach_step b c w)
  then have "b \<in> settled s" using em by (auto simp: settled_def)
  with cl reach_step.hyps(2) show ?case by (force simp: closed_except_def)
qed

lemma dijkstra_result:
  assumes nn: "nonneg_weights g"
  shows "\<exists>p c. dijkstra g start e = Some (p, c) \<and> distinct p \<and> hd p = start \<and>
     (reachable g start e \<longrightarrow> last p = e \<and> (\<exists>k. c = Fin k \<and> path_cost g p k)) \<and>
     (\<not> reachable g start e \<longrightarrow> p = [start] \<and> c = Inf)"
proof -
  let ?init = "\<lparr>pq = [(0, start)], distances = [start \<mapsto> 0], previous = Map.empty\<rparr>"
  from dijkstra_loop_returns [OF nn init_inv, where start = start and e = e]
  obtain r m where r: "dijkstra_loop g e ?init = Some r" "search_inv g start m r"
    "e \<in> dom (distances r) \<or> (pq r = [] \<and> closed_except g {} r)"
    by blast
  from r(2) have st: "distances r start = Some 0" and di: "dist_ok g start m r"
    by (simp_all add: search_inv_def start_ok_def)
  show ?thesis
  proof (cases "distances r e")
    case None
    with r(3) have em: "pq r = []" "closed_except g {} r" by auto
    have nr: "\<not> reachable g start e"
    proof
      assume "reachable g start e"
      from closed_reaches [OF em(2) em(1) _ this] st None show False by auto
    qed
    from walk_back_undiscovered [OF r(2) None] r(1) None nr show ?thesis
      by (simp add: dijkstra_def get_or_inf_def)
  next
    case (Some k)
    with di have re: "reachable g start e" by (auto simp: dist_ok_def)
    from r(2) obtain rank :: "int \<Rightarrow> nat" where
      rk: "\<forall>n c. previous r n = Some c \<longrightarrow> rank c < rank n"
      by (auto simp: search_inv_def rank_ok_def)
    from walk_back_path [OF r(2) rk Some, where acc = "[]"] obtain p where p:
      "walk_back (previous r) e [] = Some p" "distinct p" "start \<notin> set p"
      "last (start # rev p) = e" "path_cost g (start # rev p) k"
      by auto
    with r(1) Some re show ?thesis
      by (simp add: dijkstra_def get_or_inf_def)
  qed
qed

section \<open>A* with the zero heuristic follows Dijkstra step by step\<close>

lemma lift_entry_mono: "mono lift_entry"
  by (rule monoI) (auto simp: lift_entry_def less_eq_prod_def)

lemma lift_entry_inj: "inj lift_entry"
  by (rule injI) (auto simp: lift_entry_def prod_eq_iff)

lemma remove1_map_inj: "inj f \<Longrightarrow> remove1 (f x) (map f xs) = map f (remove1 x xs)"
  by (induction xs) (auto dest: injD)

lemma heappop_lift:
  assumes "h \<noteq> []"
  shows "heappop (map lift_entry h) = (lift_entry (fst (heappop h)), map lift_entry (snd (heappop h)))"
proof -
  have "min_list (map lift_entry h) = lift_entry (min_list h)"
    using assms mono_Min_commute [OF lift_entry_mono, of "set h"]
    by (simp add: min_list_Min)
  then show ?thesis
    by (simp add: heappop_def remove1_map_inj [OF lift_entry_inj])
qed

lemma relax_sim: "sim t s \<Longrightarrow> sim (a_star_relax c d t e) (dijkstra_relax c d s e)"
  by (simp add: sim_def a_star_relax_def dijkstra_relax_def Let_def heappush_def lift_entry_def)

lemma fold_sim:
  "sim t s \<Longrightarrow> sim (foldl (a_star_relax c d) t es) (foldl (dijkstra_relax c d) s es)"
  by (induction es arbitrary: t s) (simp_all add: relax_sim)

lemma loop_sim:
  assumes "dijkstra_loop g0 e0 s0 = Some r0"
  shows "\<forall>t. sim t s0 \<longrightarrow> (\<exists>t'. a_star_loop g0 e0 t = Some t' \<and> sim t' r0)"
proof (rule dijkstra_loop.raw_induct
    [where P = "\<lambda>g e s r. \<forall>t. sim t s \<longrightarrow> (\<exists>t'. a_star_loop g e t = Some t' \<and> sim t' r)",
      OF _ assms], goal_cases)
  case (1 loop g e s r)
  note IH = 1(1) and hyps = 1(2)
  show ?case
  proof (intro allI impI)
    fix t assume ts: "sim t s"
    show "\<exists>t'. a_star_loop g e t = Some t' \<and> sim t' r"
    proof (cases "pq s = []")
      case True
      with hyps have "r = s" by simp
      moreover from True ts have "a_star_loop g e t = Some t"
        by (subst a_star_loop.simps) (simp add: sim_def)
      ultimately show ?thesis using ts by simp
    next
      case ne: False
      define d where "d = fst (fst (heappop (pq s)))"
      define c where "c = snd (fst (heappop (pq s)))"
      define s1 where "s1 = s\<lparr>pq := snd (heappop (pq s))\<rparr>"
      define t1 where "t1 = t\<lparr>a_pq := snd (heappop (a_pq t))\<rparr>"
      from ts ne have tne: "a_pq t \<noteq> []" by (simp add: sim_def)
      from ts heappop_lift [OF ne]
      have pop: "fst (snd (fst (heappop (a_pq t)))) = d" "snd (snd (fst (heappop (a_pq t)))) = c"
        "snd (heappop (a_pq t)) = map lift_entry (snd (heappop (pq s)))"
        by (simp_all add: sim_def lift_entry_def d_def c_def)
      from ts pop(3) have ts1: "sim t1 s1" by (simp add: sim_def t1_def s1_def)
      then have gs: "g_score t1 = distances s1" by (simp add: sim_def)
      show ?thesis
      proof (cases "c = e")
        case True
        with hyps ne have "r = s1" by (simp add: Let_def c_def s1_def)
        moreover from True tne pop have "a_star_loop g e t = Some t1"
          by (subst a_star_loop.simps) (simp add: Let_def t1_def)
        ultimately show ?thesis using ts1 by simp
      next
        case nf: False
        show ?thesis
        proof (cases "cost_less (get_or_inf (distances s1) c) (Fin d)")
          case True
          with hyps ne nf have "loop g e s1 = Some r"
            by (simp add: Let_def c_def d_def s1_def)
          from IH [OF this] ts1 obtain t' where "a_star_loop g e t1 = Some t'" "sim t' r"
            by blast
          moreover from True nf tne pop gs have "a_star_loop g e t = a_star_loop g e t1"
            by (subst a_star_loop.simps) (simp add: Let_def t1_def)
          ultimately show ?thesis by simp
        next
          case False
          let ?s2 = "foldl (dijkstra_relax c d) s1 (get_neighbors g c)"
          let ?t2 = "foldl (a_star_relax c d) t1 (get_neighbors g c)"
          from False hyps ne nf have "loop g e ?s2 = Some r"
            by (simp add: Let_def c_def d_def s1_def)
          from IH [OF this] fold_sim [OF ts1] obtain t' where
            "a_star_loop g e ?t2 = Some t'" "sim t' r"
            by blast
          moreover from False nf tne pop gs have "a_star_loop g e t = a_star_loop g e ?t2"
            by (subst a_star_loop.simps) (simp add: Let_def t1_def)
          ultimately show ?thesis by simp
        qed
      qed
    qed
  qed
qed

lemma a_star_dijkstra: "dijkstra g start e = Some res \<Longrightarrow> a_star g start e = Some res"
proof -
  assume d: "dijkstra g start e = Some res"
  let ?s = "\<lparr>pq = [(0, start)], distances = [start \<mapsto> 0], previous = Map.empty\<rparr>"
  let ?t = "\<lparr>a_pq = [(0, 0, start)], g_score = [start \<mapsto> 0], f_score = [start \<mapsto> 0],
              a_previous = Map.empty\<rparr>"
  from d obtain r where r: "dijkstra_loop g e ?s = Some r"
    by (cases "dijkstra_loop g e ?s") (auto simp: dijkstra_def)
  have "sim ?t ?s" by (simp add: sim_def lift_entry_def)
  with loop_sim [OF r] obtain t' where t': "a_star_loop g e ?t = Some t'" "sim t' r" by blast
  then have eqs: "g_score t' = distances r" "a_previous t' = previous r" by (simp_all add: sim_def)
  have "a_star g start e = dijkstra g start e"
    unfolding a_star_def dijkstra_def t'(1) r option.case eqs by (rule refl)
  with d show ?thesis by simp
qed

lemma loop_sim_back:
  assumes "a_star_loop g0 e0 t0 = Some r0"
  shows "\<forall>s. sim t0 s \<longrightarrow> (\<exists>s'. dijkstra_loop g0 e0 s = Some s' \<and> sim r0 s')"
proof (rule a_star_loop.raw_induct
    [where P = "\<lambda>g e t r. \<forall>s. sim t s \<longrightarrow> (\<exists>s'. dijkstra_loop g e s = Some s' \<and> sim r s')",
      OF _ assms], goal_cases)
  case (1 loop g e t r)
  note IH = 1(1) and hyps = 1(2)
  show ?case
  proof (intro allI impI)
    fix s assume ts: "sim t s"
    show "\<exists>s'. dijkstra_loop g e s = Some s' \<and> sim r s'"
    proof (cases "pq s = []")
      case True
      with ts have "a_pq t = []" by (simp add: sim_def)
      with hyps have "r = t" by simp
      moreover from True have "dijkstra_loop g e s = Some s" by (rule loop_empty)
      ultimately show ?thesis using ts by simp
    next
      case ne: False
      define d where "d = fst (fst (heappop (pq s)))"
      define c where "c = snd (fst (heappop (pq s)))"
      define s1 where "s1 = s\<lparr>pq := snd (heappop (pq s))\<rparr>"
      define t1 where "t1 = t\<lparr>a_pq := snd (heappop (a_pq t))\<rparr>"
      from ts ne have tne: "a_pq t \<noteq> []" by (simp add: sim_def)
      from ts heappop_lift [OF ne]
      have pop: "fst (snd (fst (heappop (a_pq t)))) = d" "snd (snd (fst (heappop (a_pq t)))) = c"
        "snd (heappop (a_pq t)) = map lift_entry (snd (heappop (pq s)))"
        by (simp_all add: sim_def lift_entry_def d_def c_def)
      from ts pop(3) have ts1: "sim t1 s1" by (simp add: sim_def t1_def s1_def)
      then have gs: "g_score t1 = distances s1" by (simp add: sim_def)
      show ?thesis
      proof (cases "c = e")
        case True
        with hyps tne pop have "r = t1" by (simp add: Let_def t1_def)
        moreover from True ne have "dijkstra_loop g e s = Some s1"
          by (subst dijkstra_loop.simps) (simp add: Let_def c_def s1_def)
        ultimately show ?thesis using ts1 by simp
      next
        case nf: False
        show ?thesis
        proof (cases "cost_less (get_or_inf (distances s1) c) (Fin d)")
          case True
          with hyps tne nf pop gs have "loop g e t1 = Some r"
            by (simp add: Let_def t1_def)
          from IH [OF this] ts1 obtain s' where "dijkstra_loop g e s1 = Some s'" "sim r s'"
            by blast
          moreover from True nf ne have "dijkstra_loop g e s = dijkstra_loop g e s1"
            by (subst dijkstra_loop.simps) (simp add: Let_def c_def d_def s1_def)
          ultimately show ?thesis by simp
        next
          case False
          let ?s2 = "foldl (dijkstra_relax c d) s1 (get_neighbors g c)"
          let ?t2 = "foldl (a_star_relax c d) t1 (get_neighbors g c)"
          from False hyps tne nf pop gs have "loop g e ?t2 = Some r"
            by (simp add: Let_def t1_def)
          from IH [OF this] fold_sim [OF ts1] obtain s' where
            "dijkstra_loop g e ?s2 = Some s'" "sim r s'"
            by blast
          moreover from False nf ne have "dijkstra_loop g e s = dijkstra_loop g e ?s2"
            by (subst dijkstra_loop.simps) (simp add: Let_def c_def d_def s1_def)
          ultimately show ?thesis by simp
        qed
      qed
    qed
  qed
qed

lemma a_star_is_dijkstra: "a_star g start e = dijkstra g start e"
proof (cases "dijkstra g start e")
  case (Some res)
  then show ?thesis by (simp add: a_star_dijkstra)
next
  case None
  let ?s = "\<lparr>pq = [(0, start)], distances = [start \<mapsto> 0], previous = Map.empty\<rparr>"
  let ?t = "\<lparr>a_pq = [(0, 0, start)], g_score = [start \<mapsto> 0], f_score = [start \<mapsto> 0],
              a_previous = Map.empty\<rparr>"
  have st: "sim ?t ?s" by (simp add: sim_def lift_entry_def)
  show ?thesis
  proof (cases "a_star_loop g e ?t")
    case n: None
    then have "a_star g start e = None" by (simp add: a_star_def)
    with None show ?thesis by simp
  next
    case (Some t')
    from loop_sim_back [OF Some] st obtain r where r: "dijkstra_loop g e ?s = Some r" "sim t' r"
      by blast
    then have eqs: "g_score t' = distances r" "a_previous t' = previous r"
      by (simp_all add: sim_def)
    show ?thesis
      unfolding a_star_def dijkstra_def Some r(1) option.case eqs by (rule refl)
  qed
qed

section \<open>Results of the two searches\<close>

lemma adjacency_of_add_node:
  "adjacency (add_node g n lat lon) = AList.update n [] (adjacency g)"
  by (simp add: add_node_def Let_def)

lemma scenario_adjacency:
  "adjacency scenario = [(0, [(1, 5)]), (1, [(0, 5), (2, 3)]), (2, [(1, 3)]), (3, [])]"
proof -
  have "adjacency (foldl apply_op init_graph
      [AddNode 0 0.31 32.57, AddNode 1 0.32 32.58, AddNode 2 0.33 32.59, AddNode 3 0.34 32.6]) =
      [(0, []), (1, []), (2, []), (3, [])]"
    by (simp add: adjacency_of_add_node init_graph_def)
  then show ?thesis
    by (simp add: scenario_def build_def add_edge_def Let_def)
qed

lemma scenario_neighbors:
  "get_neighbors scenario n =
     (if n = 0 then [(1, 5)] else if n = 1 then [(0, 5), (2, 3)] else if n = 2 then [(1, 3)] else [])"
  by (simp add: get_neighbors_def scenario_adjacency)

lemma scenario_pos: "pos_weights scenario"
  by (simp add: pos_weights_def scenario_adjacency)

lemma scenario_nonneg: "nonneg_weights scenario"
  by (simp add: nonneg_weights_def scenario_adjacency)

lemma scenario_reach_0_2: "reachable scenario 0 2"
proof -
  have "reachable scenario 0 0" by (rule reach_self)
  then have "reachable scenario 0 1" by (rule reach_step [where w = 5]) (simp add: scenario_neighbors)
  then show ?thesis by (rule reach_step [where w = 3]) (simp add: scenario_neighbors)
qed

lemma scenario_reach_from_0: "reachable scenario 0 n \<Longrightarrow> n \<in> {0, 1, 2}"
  by (induction rule: reachable.induct) (auto simp: scenario_neighbors split: if_splits)

lemma scenario_unreach_0_3: "\<not> reachable scenario 0 3"
  using scenario_reach_from_0 [of 3] by auto

lemma pos_nonneg: "pos_weights g \<Longrightarrow> nonneg_weights g"
  by (auto simp: pos_weights_def nonneg_weights_def list_all_iff intro: less_imp_le)

text \<open>
  Claim C1, as amended. On a graph without negative weights, whenever \<open>end_node\<close> is
  reachable from \<open>start\<close>, \<^verbatim>\<open>dijkstra\<close> and \<^verbatim>\<open>a_star\<close> both return; the path
  returned begins with \<open>start\<close> and ends with \<open>end_node\<close>, and the cost returned is
  finite and is the sum of the weights of an edge for each consecutive pair of the path.
\<close>

theorem shortest_path_reachable:
  "nonneg_weights g \<Longrightarrow> reachable g start end_node \<Longrightarrow>
   (\<exists>p k. dijkstra g start end_node = Some (p, Fin k) \<and>
           hd p = start \<and> last p = end_node \<and> path_cost g p k) \<and>
   (\<exists>p k. a_star g start end_node = Some (p, Fin k) \<and>
           hd p = start \<and> last p = end_node \<and> path_cost g p k)"
proof -
  assume nn: "nonneg_weights g" and re: "reachable g start end_node"
  from dijkstra_result [OF nn, of start end_node] re obtain p k where
    d: "dijkstra g start end_node = Some (p, Fin k)" "hd p = start" "last p = end_node"
       "path_cost g p k"
    by auto
  from d(1) have "a_star g start end_node = Some (p, Fin k)" by (rule a_star_dijkstra)
  with d show ?thesis by blast
qed

text \<open>
  Claim C1 as amended, on the scenario: from node 0 to node 2.
\<close>

theorem shortest_path_reachable_witness:
  "nonneg_weights scenario \<and> reachable scenario 0 2 \<and>
   (\<exists>p k. dijkstra scenario 0 2 = Some (p, Fin k) \<and> hd p = 0 \<and> last p = 2 \<and> path_cost scenario p k) \<and>
   (\<exists>p k. a_star scenario 0 2 = Some (p, Fin k) \<and> hd p = 0 \<and> last p = 2 \<and> path_cost scenario p k)"
  using shortest_path_reachable [OF scenario_nonneg scenario_reach_0_2]
    scenario_nonneg scenario_reach_0_2
  by simp

text \<open>
  Claim C2, as amended. On a graph without negative weights, when \<open>end_node\<close> differs
  from \<open>start\<close> and is not reachable from it (a node never added has no neighbours and
  is reachable from no other node), \<^verbatim>\<open>dijkstra\<close> and \<^verbatim>\<open>a_star\<close> both return the path
  \<open>[start]\<close> with the cost \<^verbatim>\<open>float('inf')\<close>.
\<close>

theorem shortest_path_unreachable:
  "nonneg_weights g \<Longrightarrow> start \<noteq> end_node \<Longrightarrow> \<not> reachable g start end_node \<Longrightarrow>
   dijkstra g start end_node = Some ([start], Inf) \<and>
   a_star g start end_node = Some ([start], Inf)"
proof -
  assume nn: "nonneg_weights g" and nr: "\<not> reachable g start end_node"
  from dijkstra_result [OF nn, of start end_node] nr
  have d: "dijkstra g start end_node = Some ([start], Inf)" by auto
  then have "a_star g start end_node = Some ([start], Inf)" by (rule a_star_dijkstra)
  with d show ?thesis by simp
qed

text \<open>
  Claim C2 as amended, on the scenario: from node 0 to the isolated node 3.
\<close>

theorem shortest_path_unreachable_witness:
  "nonneg_weights scenario \<and> (0::int) \<noteq> 3 \<and> \<not> reachable scenario 0 3 \<and>
   dijkstra scenario 0 3 = Some ([0], Inf) \<and> a_star scenario 0 3 = Some ([0], Inf)"
  using shortest_path_unreachable [OF scenario_nonneg _ scenario_unreach_0_3]
    scenario_nonneg scenario_unreach_0_3
  by simp

text \<open>
  Claim C3. On a graph with positive weights, when \<open>b\<close> is reachable from \<open>a\<close>, both
  functions return, and with the same finite cost.
\<close>

theorem a_star_cost_equals_dijkstra:
  "pos_weights g \<Longrightarrow> reachable g a b \<Longrightarrow>
   \<exists>p q c. dijkstra g a b = Some (p, Fin c) \<and> a_star g a b = Some (q, Fin c)"
proof -
  assume "pos_weights g" and re: "reachable g a b"
  then have "nonneg_weights g" by (simp add: pos_nonneg)
  from dijkstra_result [OF this, of a b] re obtain p c where d: "dijkstra g a b = Some (p, Fin c)"
    by auto
  then have "a_star g a b = Some (p, Fin c)" by (rule a_star_dijkstra)
  with d show ?thesis by blast
qed

text \<open>
  Claim C3, on the scenario: from node 0 to node 2.
\<close>

theorem a_star_cost_equals_dijkstra_witness:
  "pos_weights scenario \<and> reachable scenario 0 2 \<and>
   (\<exists>p q c. dijkstra scenario 0 2 = Some (p, Fin c) \<and> a_star scenario 0 2 = Some (q, Fin c))"
  using a_star_cost_equals_dijkstra [OF scenario_pos scenario_reach_0_2]
    scenario_pos scenario_reach_0_2
  by simp

lemma walk_back_total:
  assumes inv: "search_inv g start m s"
  shows "\<exists>path. walk_back (previous s) n [] = Some path"
proof (cases "distances s n")
  case None
  with walk_back_undiscovered [OF inv] show ?thesis by blast
next
  case (Some dn)
  from inv obtain rank :: "int \<Rightarrow> nat" where
    rk: "\<forall>n c. previous s n = Some c \<longrightarrow> rank c < rank n"
    by (auto simp: search_inv_def rank_ok_def)
  from walk_back_path [OF inv rk Some, where acc = "[]"] show ?thesis by auto
qed

lemma loops_return:
  assumes nn: "nonneg_weights g"
  shows "\<exists>r t m. dijkstra_loop g e \<lparr>pq = [(0, start)], distances = [start \<mapsto> 0], previous = Map.empty\<rparr> = Some r \<and>
     a_star_loop g e \<lparr>a_pq = [(0, 0, start)], g_score = [start \<mapsto> 0], f_score = [start \<mapsto> 0],
              a_previous = Map.empty\<rparr> = Some t \<and>
     a_previous t = previous r \<and> search_inv g start m r"
proof -
  let ?s = "\<lparr>pq = [(0, start)], distances = [start \<mapsto> 0], previous = Map.empty\<rparr>"
  let ?t = "\<lparr>a_pq = [(0, 0, start)], g_score = [start \<mapsto> 0], f_score = [start \<mapsto> 0],
              a_previous = Map.empty\<rparr>"
  from dijkstra_loop_returns [OF nn init_inv, where start = start and e = e]
  obtain r m where r: "dijkstra_loop g e ?s = Some r" "search_inv g start m r" by blast
  have "sim ?t ?s" by (simp add: sim_def lift_entry_def)
  with loop_sim [OF r(1)] obtain t where "a_star_loop g e ?t = Some t" "sim t r" by blast
  with r show ?thesis by (auto simp: sim_def)
qed

text \<open>
  Claim C10. On a graph with positive weights the main loops of \<^verbatim>\<open>dijkstra\<close> and
  \<^verbatim>\<open>a_star\<close> end, and in the predecessor map they leave, the backward walk from every
  node ends (every chain of predecessors reaches a node without predecessor); both
  functions return, and the path returned has no repeated node.
\<close>

theorem predecessor_walk_ends:
  "pos_weights g \<Longrightarrow>
   (\<exists>r. dijkstra_loop g end_node
           \<lparr>pq = [(0, start)], distances = [start \<mapsto> 0], previous = Map.empty\<rparr> = Some r \<and>
        (\<forall>n. \<exists>path. walk_back (previous r) n [] = Some path)) \<and>
   (\<exists>t. a_star_loop g end_node
           \<lparr>a_pq = [(0, 0, start)], g_score = [start \<mapsto> 0], f_score = [start \<mapsto> 0],
            a_previous = Map.empty\<rparr> = Some t \<and>
        (\<forall>n. \<exists>path. walk_back (a_previous t) n [] = Some path)) \<and>
   (\<exists>p c. dijkstra g start end_node = Some (p, c) \<and> distinct p) \<and>
   (\<exists>p c. a_star g start end_node = Some (p, c) \<and> distinct p)"
proof -
  assume "pos_weights g"
  then have nn: "nonneg_weights g" by (rule pos_nonneg)
  from loops_return [OF nn, of end_node start] obtain r t m where
    l: "dijkstra_loop g end_node \<lparr>pq = [(0, start)], distances = [start \<mapsto> 0], previous = Map.empty\<rparr> = Some r"
      "a_star_loop g end_node \<lparr>a_pq = [(0, 0, start)], g_score = [start \<mapsto> 0], f_score = [start \<mapsto> 0],
              a_previous = Map.empty\<rparr> = Some t"
      "a_previous t = previous r" "search_inv g start m r"
    by blast
  have w: "\<forall>n. \<exists>path. walk_back (previous r) n [] = Some path"
    using walk_back_total [OF l(4)] by blast
  from dijkstra_result [OF nn, of start end_node] obtain p c where
    d: "dijkstra g start end_node = Some (p, c)" "distinct p" by blast
  from d(1) have "a_star g start end_node = Some (p, c)" by (rule a_star_dijkstra)
  with d l w show ?thesis by auto
qed

text \<open>
  Claim C10, on the scenario: from node 0 to node 2.
\<close>

theorem predecessor_walk_ends_witness:
  "pos_weights scenario \<and>
   (\<exists>r. dijkstra_loop scenario 2
           \<lparr>pq = [(0, 0)], distances = [0 \<mapsto> 0], previous = Map.empty\<rparr> = Some r \<and>
        (\<forall>n. \<exists>path. walk_back (previous r) n [] = Some path)) \<and>
   (\<exists>t. a_star_loop scenario 2
           \<lparr>a_pq = [(0, 0, 0)], g_score = [0 \<mapsto> 0], f_score = [0 \<mapsto> 0],
            a_previous = Map.empty\<rparr> = Some t \<and>
        (\<forall>n. \<exists>path. walk_back (a_previous t) n [] = Some path)) \<and>
   (\<exists>p c. dijkstra scenario 0 2 = Some (p, c) \<and> distinct p) \<and>
   (\<exists>p c. a_star scenario 0 2 = Some (p, c) \<and> distinct p)"
  using predecessor_walk_ends [OF scenario_pos, of 2 0] scenario_pos
  by simp

section \<open>Negative travel times\<close>

lemma negative_cycle_previous:
  "map_option (\<lambda>r. (previous r 0, previous r 1, previous r 2))
     (dijkstra_loop negative_cycle 2
        \<lparr>pq = [(0, 0)], distances = [0 \<mapsto> 0], previous = Map.empty\<rparr>) =
   Some (Some 1, Some 0, Some 1)"
  by code_simp

lemma walk_back_cycle:
  assumes "walk_back prev0 cur0 acc0 = Some y0"
  shows "\<not> (prev0 a = Some b \<and> prev0 b = Some a \<and> (cur0 = a \<or> cur0 = b))"
proof (rule walk_back.raw_induct
    [where P = "\<lambda>prev cur acc y. \<not> (prev a = Some b \<and> prev b = Some a \<and> (cur = a \<or> cur = b))",
      OF _ assms], goal_cases)
  case (1 walk prev cur acc y)
  note IH = 1(1) and body = 1(2)
  show ?case
  proof
    assume c: "prev a = Some b \<and> prev b = Some a \<and> (cur = a \<or> cur = b)"
    then consider (at_a) "cur = a" | (at_b) "cur = b" by blast
    then show False
    proof cases
      case at_a
      with c body have "walk prev b (acc @ [a]) = Some y" by simp
      from IH [OF this] c show False by simp
    next
      case at_b
      with c body have "walk prev a (acc @ [b]) = Some y" by simp
      from IH [OF this] c show False by simp
    qed
  qed
qed

lemma negative_cycle_neighbors:
  "get_neighbors negative_cycle n =
     (if n = 0 then [(1, - 1)] else if n = 1 then [(0, - 1), (2, - 5)]
      else if n = 2 then [(1, - 5)] else [])"
  by (simp add: negative_cycle_def build_def get_neighbors_add_edge init_graph_neighbors)

lemma negative_cycle_reach: "reachable negative_cycle 0 2"
proof -
  have "reachable negative_cycle 0 0" by (rule reach_self)
  then have "reachable negative_cycle 0 1"
    by (rule reach_step [where w = "- 1"]) (simp add: negative_cycle_neighbors)
  then show ?thesis
    by (rule reach_step [where w = "- 5"]) (simp add: negative_cycle_neighbors)
qed

lemma negative_cycle_dijkstra: "dijkstra negative_cycle 0 2 = None"
proof -
  from negative_cycle_previous obtain r where
    r: "dijkstra_loop negative_cycle 2 \<lparr>pq = [(0, 0)], distances = [0 \<mapsto> 0], previous = Map.empty\<rparr> = Some r"
    and p: "previous r 0 = Some 1" "previous r 1 = Some 0" "previous r 2 = Some 1"
    by auto
  have "walk_back (previous r) 2 [] = walk_back (previous r) 1 [2]"
    by (subst walk_back.simps) (simp add: p)
  moreover have "walk_back (previous r) 1 [2] = None"
    using walk_back_cycle [of "previous r" 1 "[2]" _ 0 1] p
    by (cases "walk_back (previous r) 1 [2]") auto
  ultimately show ?thesis by (simp add: dijkstra_def r)
qed

text \<open>
  Claim C1 as stated fails. On the edges \<open>(0, 1, -1)\<close> and \<open>(1, 2, -5)\<close> node 2 is
  reachable from node 0, the main loop ends when node 2 is popped, and the predecessor
  map then sends 0 to 1 and 1 to 0: the walk back from node 2 never ends, and
  \<^verbatim>\<open>dijkstra(0, 2)\<close> returns nothing; \<^verbatim>\<open>a_star(0, 2)\<close> does the same.
\<close>

theorem negative_weight_no_path:
  "reachable negative_cycle 0 2 \<and> dijkstra negative_cycle 0 2 = None \<and>
   a_star negative_cycle 0 2 = None"
  using negative_cycle_reach negative_cycle_dijkstra by (simp add: a_star_is_dijkstra)


lemma negative_edge_neighbors:
  "get_neighbors negative_edge n = (if n = 0 then [(1, - 1)] else if n = 1 then [(0, - 1)] else [])"
  by (simp add: negative_edge_def build_def get_neighbors_add_edge init_graph_neighbors)

lemma bouncing_step:
  assumes "bouncing s"
  shows "\<exists>s'. bouncing s' \<and>
    (if pq s = [] then Some s
      else
        let current_dist = fst (fst (heappop (pq s)));
            current = snd (fst (heappop (pq s)));
            s1 = s\<lparr>pq := snd (heappop (pq s))\<rparr>
        in if current = 2 then Some s1
           else if cost_less (get_or_inf (distances s1) current) (Fin current_dist)
           then loop negative_edge 2 s1
           else loop negative_edge 2
                  (foldl (dijkstra_relax current current_dist) s1 (get_neighbors negative_edge current)))
    = loop negative_edge 2 s'"
proof -
  from assms obtain d n where n: "n = 0 \<or> n = 1" and q: "pq s = [(d, n)]"
    and dn: "distances s n = Some d" and o: "\<forall>u. distances s (1 - n) = Some u \<longrightarrow> d - 1 < u"
    by (auto simp: bouncing_def)
  let ?s' = "s\<lparr>distances := (distances s)(1 - n \<mapsto> d - 1), previous := (previous s)(1 - n \<mapsto> n),
               pq := [(d - 1, 1 - n)]\<rparr>"
  have "bouncing ?s'"
    unfolding bouncing_def using n dn
    by (intro exI [of _ "d - 1"] exI [of _ "1 - n"]) auto
  moreover have "dijkstra_relax n d (s\<lparr>pq := []\<rparr>) (1 - n, - 1) = ?s'"
    using o by (simp add: dijkstra_relax_def cost_less_get heappush_def Let_def)
  then have "foldl (dijkstra_relax n d) (s\<lparr>pq := []\<rparr>) (get_neighbors negative_edge n) = ?s'"
    using n by (auto simp: negative_edge_neighbors)
  ultimately show ?thesis
    using n q dn
    by (intro exI [of _ ?s']) (auto simp: heappop_def Let_def cost_less_get')
qed

lemma bouncing_forever:
  assumes "dijkstra_loop g0 e0 s0 = Some y0"
  shows "\<not> (g0 = negative_edge \<and> e0 = 2 \<and> bouncing s0)"
proof (rule dijkstra_loop.raw_induct
    [where P = "\<lambda>g e s y. \<not> (g = negative_edge \<and> e = 2 \<and> bouncing s)", OF _ assms], goal_cases)
  case (1 loop g e s y)
  show ?case
  proof
    assume c: "g = negative_edge \<and> e = 2 \<and> bouncing s"
    with bouncing_step [of s loop] obtain s' where s': "bouncing s'" "loop negative_edge 2 s' = Some y"
      using "1"(2) by auto
    from "1"(1) [OF s'(2)] s'(1) show False by simp
  qed
qed

lemma negative_edge_unreachable: "\<not> reachable negative_edge 0 2"
proof -
  have "reachable negative_edge 0 n \<Longrightarrow> n = 0 \<or> n = 1" for n
    by (induction rule: reachable.induct) (auto simp: negative_edge_neighbors split: if_splits)
  then show ?thesis by fastforce
qed

lemma negative_edge_dijkstra: "dijkstra negative_edge 0 2 = None"
proof -
  have "bouncing \<lparr>pq = [(0, 0)], distances = [0 \<mapsto> 0], previous = Map.empty\<rparr>"
    by (simp add: bouncing_def)
  with bouncing_forever
  have "dijkstra_loop negative_edge 2 \<lparr>pq = [(0, 0)], distances = [0 \<mapsto> 0], previous = Map.empty\<rparr> = None"
    by (cases "dijkstra_loop negative_edge 2 \<lparr>pq = [(0, 0)], distances = [0 \<mapsto> 0], previous = Map.empty\<rparr>")
      auto
  then show ?thesis by (simp add: dijkstra_def)
qed

lemma negative_edge_a_star: "a_star negative_edge 0 2 = None"
  by (simp add: a_star_is_dijkstra negative_edge_dijkstra)

lemma negative_edge_weight: "\<not> nonneg_weights negative_edge"
  by (simp add: nonneg_weights_def negative_edge_def build_def add_edge_def init_graph_def Let_def)

text \<open>
  Claim C2 as stated fails. On the single edge \<open>(0, 1, -1)\<close> node 2 is not reachable
  from node 0, and the main loop of \<^verbatim>\<open>dijkstra(0, 2)\<close> lowers the distances of nodes 0
  and 1 in turn for ever: the call returns nothing; \<^verbatim>\<open>a_star(0, 2)\<close> does the same.
\<close>

theorem negative_weight_no_answer:
  "\<not> reachable negative_edge 0 2 \<and> dijkstra negative_edge 0 2 = None \<and>
   a_star negative_edge 0 2 = None"
  by (simp add: negative_edge_unreachable negative_edge_dijkstra negative_edge_a_star)

section \<open>The batch dispatcher returns the sequential results\<close>

lemma those_map_Some: "those (map Some ys) = Some ys"
  by (induction ys) simp_all

lemma those_None: "None \<in> set xs \<Longrightarrow> those xs = None"
  by (induction xs) (auto split: option.splits)

lemma run_workers_none:
  "i \<in> set sched \<Longrightarrow> i < length requests \<Longrightarrow> process_request g (requests ! i) = None \<Longrightarrow>
   run_workers g requests sched futures = None"
proof (induction sched arbitrary: futures)
  case Nil
  then show ?case by simp
next
  case (Cons j sched)
  show ?case
  proof (cases "j = i")
    case True
    with Cons.prems show ?thesis by simp
  next
    case False
    with Cons.prems have "i \<in> set sched" by simp
    from Cons.IH [OF this Cons.prems(2,3)] show ?thesis
      by (simp split: option.splits)
  qed
qed

lemma run_workers_all:
  assumes all: "\<forall>i < length requests. process_request g (requests ! i) \<noteq> None"
  shows "length futures = length requests \<Longrightarrow>
    \<exists>fs. run_workers g requests sched futures = Some fs \<and> length fs = length requests \<and>
      (\<forall>i < length requests.
         fs ! i = (if i \<in> set sched then process_request g (requests ! i) else futures ! i))"
proof (induction sched arbitrary: futures)
  case Nil
  then show ?case by simp
next
  case (Cons j sched)
  show ?case
  proof (cases "j < length requests")
    case False
    with Cons.IH [OF Cons.prems] show ?thesis by auto
  next
    case True
    with all obtain r where r: "process_request g (requests ! j) = Some r" by auto
    have "length (futures[j := Some r]) = length requests" using Cons.prems by simp
    from Cons.IH [OF this] obtain fs where
      fs: "run_workers g requests sched (futures[j := Some r]) = Some fs" "length fs = length requests"
        "\<forall>i < length requests.
           fs ! i = (if i \<in> set sched then process_request g (requests ! i) else futures[j := Some r] ! i)"
      by blast
    have "\<forall>i < length requests.
         fs ! i = (if i \<in> set (j # sched) then process_request g (requests ! i) else futures ! i)"
      using fs(3) r Cons.prems by (auto simp: nth_list_update)
    with fs(1,2) True r show ?thesis by simp
  qed
qed

lemma simple_parallel_sequential:
  assumes sched: "set sched = {0..<length requests}"
  shows "simple_parallel sched g requests = those (map (process_request g) requests)"
proof (cases "\<forall>i < length requests. process_request g (requests ! i) \<noteq> None")
  case True
  from run_workers_all [OF True, of "replicate (length requests) None" sched]
  obtain fs where fs: "run_workers g requests sched (replicate (length requests) None) = Some fs"
    "length fs = length requests"
    "\<forall>i < length requests. fs ! i = process_request g (requests ! i)"
    using sched by auto
  from fs(2,3) have "fs = map (process_request g) requests"
    by (intro nth_equalityI) auto
  with fs(1) show ?thesis by (simp add: simple_parallel_def)
next
  case False
  then obtain i where i: "i < length requests" "process_request g (requests ! i) = None" by blast
  with sched have "i \<in> set sched" by simp
  from run_workers_none [OF this i] have "simple_parallel sched g requests = None"
    by (simp add: simple_parallel_def)
  moreover from i have "None \<in> set (map (process_request g) requests)"
    by (metis length_map nth_map nth_mem)
  ultimately show ?thesis by (simp add: those_None)
qed

text \<open>
  Claim C7, as amended. Whatever the order \<open>sched\<close> in which the workers finish the tasks (each
  task once), \<^verbatim>\<open>simple_parallel\<close> is the sequence of the \<^verbatim>\<open>a_star\<close> calls on the
  requests in input order: it returns when all of them return, and then the list of their
  results. On a graph without negative weights all of them return, so there are as many
  results as requests, and result \<open>i\<close> is that of \<^verbatim>\<open>a_star\<close> on request \<open>i\<close>.
\<close>

theorem simple_parallel_in_order:
  "set sched = {0..<length requests} \<Longrightarrow> distinct sched \<Longrightarrow>
   simple_parallel sched g requests =
     those (map (\<lambda>req. a_star g (fst req) (snd req)) requests) \<and>
   (nonneg_weights g \<longrightarrow>
      (\<exists>results. simple_parallel sched g requests = Some results \<and>
         length results = length requests \<and>
         (\<forall>i < length requests.
            a_star g (fst (requests ! i)) (snd (requests ! i)) = Some (results ! i))))"
proof -
  assume sched: "set sched = {0..<length requests}"
  have eq: "simple_parallel sched g requests =
      those (map (\<lambda>req. a_star g (fst req) (snd req)) requests)"
    using simple_parallel_sequential [OF sched, of g]
    by (simp add: process_request_def [abs_def])
  moreover have "\<exists>results. simple_parallel sched g requests = Some results \<and>
         length results = length requests \<and>
         (\<forall>i < length requests.
            a_star g (fst (requests ! i)) (snd (requests ! i)) = Some (results ! i))"
    if nn: "nonneg_weights g"
  proof -
    have ret: "\<exists>res. a_star g a b = Some res" for a b
      using dijkstra_result [OF nn, of a b] a_star_dijkstra by blast
    define results where "results = map (\<lambda>req. the (a_star g (fst req) (snd req))) requests"
    have "map (\<lambda>req. a_star g (fst req) (snd req)) requests = map Some results"
      unfolding results_def using ret by auto
    then have "simple_parallel sched g requests = Some results"
      using eq by (simp add: those_map_Some)
    moreover have "a_star g (fst (requests ! i)) (snd (requests ! i)) = Some (results ! i)"
      if "i < length requests" for i
      using that ret [of "fst (requests ! i)" "snd (requests ! i)"] by (auto simp: results_def)
    ultimately show ?thesis by (auto simp: results_def)
  qed
  ultimately show ?thesis by blast
qed

text \<open>
  Claim C7 as amended, on the batch of the specification, with the second task finishing
  first.
\<close>

theorem simple_parallel_in_order_witness:
  "set [1, 0] = {0..<length [(0::int, 2::int), (0, 3)]} \<and> distinct [1::nat, 0] \<and>
   nonneg_weights scenario \<and>
   simple_parallel [1, 0] scenario [(0::int, 2::int), (0, 3)] =
     those (map (\<lambda>req. a_star scenario (fst req) (snd req)) [(0::int, 2::int), (0, 3)]) \<and>
   (\<exists>results. simple_parallel [1, 0] scenario [(0::int, 2::int), (0, 3)] = Some results \<and>
      length results = length [(0::int, 2::int), (0, 3)] \<and>
      (\<forall>i < length [(0::int, 2::int), (0, 3)].
         a_star scenario (fst ([(0::int, 2::int), (0, 3)] ! i)) (snd ([(0::int, 2::int), (0, 3)] ! i)) = Some (results ! i)))"
  (is "?S \<and> ?D \<and> ?N \<and> ?E \<and> ?R")
proof -
  have s: ?S by auto
  have d: ?D by simp
  note t = simple_parallel_in_order [OF s d, of scenario]
  from t have e: ?E by (rule conjunct1)
  from t have "?N \<longrightarrow> ?R" by (rule conjunct2)
  then have r: ?R using scenario_nonneg by (rule mp)
  from s d scenario_nonneg e r show ?thesis by (intro conjI)
qed

text \<open>
  Claim C7 as stated fails. On the single edge \<open>(0, 1, -1)\<close> the batch \<open>[(0, 2)]\<close> has
  one request and one task; the task is the call \<^verbatim>\<open>a_star(0, 2)\<close>, which never returns,
  so \<^verbatim>\<open>simple_parallel\<close> waits for its result for ever and returns no list.
\<close>

theorem negative_weight_no_batch:
  "set [0] = {0..<length [(0::int, 2::int)]} \<and> distinct [0::nat] \<and>
   a_star negative_edge 0 2 = None \<and>
   simple_parallel [0] negative_edge [(0, 2)] = None"
proof -
  have s: "set [0] = {0..<length [(0::int, 2::int)]}" by auto
  from simple_parallel_sequential [OF s, of negative_edge]
  have "simple_parallel [0] negative_edge [(0, 2)] = None"
    by (simp add: process_request_def negative_edge_a_star)
  with s show ?thesis by (simp add: negative_edge_a_star)
qed

section \<open>The multi-stop loop can run for ever\<close>

lemma greedy_loop_stuck:
  assumes "greedy_loop g0 u0 c0 r0 t0 = Some y0"
  shows "\<not> stuck g0 u0 c0"
proof (rule greedy_loop.raw_induct
    [where P = "\<lambda>g u c r t y. \<not> stuck g u c", OF _ assms], goal_cases)
  case (1 loop g u c r t y)
  show ?case
  proof
    assume "stuck g u c"
    then obtain found where f: "u \<noteq> []" "nearest_scan g c u (None, Inf) = Some found"
      "fst found = None \<or> fst found = Some 0"
      by (auto simp: stuck_def)
    with "1"(2) have "loop g u c r t = Some y" by auto
    from "1"(1) [OF this] \<open>stuck g u c\<close> show False by simp
  qed
qed

lemma greedy_tsp_stuck:
  "2 \<le> length stops \<Longrightarrow> stuck g (set_iter (drop 1 stops)) (stops ! 0) \<Longrightarrow>
   greedy_tsp set_iter g stops = None"
  using greedy_loop_stuck [of g "set_iter (drop 1 stops)" "stops ! 0" "[stops ! 0]" "Fin 0"]
  by (cases "greedy_loop g (set_iter (drop 1 stops)) (stops ! 0) [stops ! 0] (Fin 0)")
    (auto simp: greedy_tsp_def)

lemma scenario_reach_1_0: "reachable scenario 1 0"
proof -
  have "reachable scenario 1 1" by (rule reach_self)
  then show ?thesis by (rule reach_step [where w = 5]) (simp add: scenario_neighbors)
qed

text \<open>
  Claim C6 fails on the code. On the scenario, \<^verbatim>\<open>greedy_tsp([1, 0])\<close> finds node 0 as
  the nearest stop, which \<^verbatim>\<open>if nearest:\<close> takes for false, and \<^verbatim>\<open>greedy_tsp([0, 3])\<close>
  finds no stop at a finite cost; in both cases the loop body changes nothing and the
  loop never ends.
\<close>

theorem greedy_tsp_never_returns:
  "greedy_tsp remdups scenario [1, 0] = None \<and> greedy_tsp remdups scenario [0, 3] = None"
proof
  from dijkstra_result [OF scenario_nonneg, of 1 0] scenario_reach_1_0
  obtain p k where "dijkstra scenario 1 0 = Some (p, Fin k)" by auto
  then have "a_star scenario 1 0 = Some (p, Fin k)" by (rule a_star_dijkstra)
  then have "stuck scenario [0] 1" by (simp add: stuck_def)
  then show "greedy_tsp remdups scenario [1, 0] = None"
    by (intro greedy_tsp_stuck) simp_all
next
  from dijkstra_result [OF scenario_nonneg, of 0 3] scenario_unreach_0_3
  have "dijkstra scenario 0 3 = Some ([0], Inf)" by auto
  then have "a_star scenario 0 3 = Some ([0], Inf)" by (rule a_star_dijkstra)
  then have "stuck scenario [3] 0" by (simp add: stuck_def)
  then show "greedy_tsp remdups scenario [0, 3] = None"
    by (intro greedy_tsp_stuck) simp_all
qed

section \<open>The scenario, evaluated\<close>

text \<open>
  The concrete cases of the specification, computed from the definitions on the adjacency
  lists of the scenario (the searches read nothing else of the graph): the path from
  node 0 to node 2, the isolated node 3, a node to itself, the tour over \<open>[0, 2, 1]\<close>
  and the batch \<open>[(0, 2), (0, 3)]\<close> with the second task finishing first.
\<close>

lemma scenario_record:
  "scenario = \<lparr>adjacency = [(0, [(1, 5)]), (1, [(0, 5), (2, 3)]), (2, [(1, 3)]), (3, [])],
                positions = positions scenario, grid = grid scenario\<rparr>"
  by (simp add: scenario_adjacency [symmetric])

lemma scenario_dijkstra_0_2:
  "dijkstra scenario 0 2 = Some ([0, 1, 2], Fin 8)"
proof -
  have "dijkstra
        \<lparr>adjacency = [(0, [(1, 5)]), (1, [(0, 5), (2, 3)]), (2, [(1, 3)]), (3, [])],
          positions = p, grid = c\<rparr>
        0 2 = Some ([0, 1, 2], Fin 8)" for p c
    by code_simp
  then show ?thesis by (subst scenario_record)
qed

lemma scenario_a_star_0_2:
  "a_star scenario 0 2 = Some ([0, 1, 2], Fin 8)"
proof -
  have "a_star
        \<lparr>adjacency = [(0, [(1, 5)]), (1, [(0, 5), (2, 3)]), (2, [(1, 3)]), (3, [])],
          positions = p, grid = c\<rparr>
        0 2 = Some ([0, 1, 2], Fin 8)" for p c
    by code_simp
  then show ?thesis by (subst scenario_record)
qed

lemma scenario_dijkstra_0_3:
  "dijkstra scenario 0 3 = Some ([0], Inf)"
proof -
  have "dijkstra
        \<lparr>adjacency = [(0, [(1, 5)]), (1, [(0, 5), (2, 3)]), (2, [(1, 3)]), (3, [])],
          positions = p, grid = c\<rparr>
        0 3 = Some ([0], Inf)" for p c
    by code_simp
  then show ?thesis by (subst scenario_record)
qed

lemma scenario_self_route_dijkstra:
  "dijkstra scenario 1 1 = Some ([1], Fin 0)"
proof -
  have "dijkstra
        \<lparr>adjacency = [(0, [(1, 5)]), (1, [(0, 5), (2, 3)]), (2, [(1, 3)]), (3, [])],
          positions = p, grid = c\<rparr>
        1 1 = Some ([1], Fin 0)" for p c
    by code_simp
  then show ?thesis by (subst scenario_record)
qed

lemma scenario_self_route_a_star:
  "a_star scenario 1 1 = Some ([1], Fin 0)"
proof -
  have "a_star
        \<lparr>adjacency = [(0, [(1, 5)]), (1, [(0, 5), (2, 3)]), (2, [(1, 3)]), (3, [])],
          positions = p, grid = c\<rparr>
        1 1 = Some ([1], Fin 0)" for p c
    by code_simp
  then show ?thesis by (subst scenario_record)
qed

lemma scenario_greedy_tsp:
  "greedy_tsp remdups scenario [0, 2, 1] = Some ([0, 1, 2], Fin 8)"
proof -
  have "greedy_tsp remdups
        \<lparr>adjacency = [(0, [(1, 5)]), (1, [(0, 5), (2, 3)]), (2, [(1, 3)]), (3, [])],
          positions = p, grid = c\<rparr>
        [0, 2, 1] = Some ([0, 1, 2], Fin 8)" for p c
    by code_simp
  then show ?thesis by (subst scenario_record)
qed

lemma scenario_batch:
  "simple_parallel [1, 0] scenario [(0, 2), (0, 3)] = Some [([0, 1, 2], Fin 8), ([0], Inf)]"
proof -
  have "simple_parallel [1, 0]
        \<lparr>adjacency = [(0, [(1, 5)]), (1, [(0, 5), (2, 3)]), (2, [(1, 3)]), (3, [])],
          positions = p, grid = c\<rparr>
        [(0, 2), (0, 3)] = Some [([0, 1, 2], Fin 8), ([0], Inf)]" for p c
    by code_simp
  then show ?thesis by (subst scenario_record)
qed

end
